theory Spec2Isabelle
  imports Main
begin

section \<open>JavaScript values\<close>

text \<open>
  The client of \<^verbatim>\<open>SupersetClient.ts\<close> stores values it reads from a parsed
  response (\<^verbatim>\<open>response.json.csrf_token\<close> has type \<^verbatim>\<open>any\<close>), tests them with
  \<^verbatim>\<open>typeof\<close> and compares them with \<^verbatim>\<open>null\<close> and \<^verbatim>\<open>undefined\<close>. Such values are
  modelled by \<open>jsval\<close>. An exception is a value of \<open>error\<close>; \<open>JThrown\<close> is an
  exception object used as the payload of a rejected promise.
\<close>

datatype error = Error string | TypeError

datatype jsval =
    JUndefined
  | JNull
  | JBool bool
  | JNum int
  | JStr string
  | JArr "jsval list"
  | JObj "(string \<times> jsval) list"
  | JThrown error

fun typeof :: "jsval \<Rightarrow> string" where
  "typeof JUndefined = ''undefined''"
| "typeof JNull = ''object''"
| "typeof (JBool b) = ''boolean''"
| "typeof (JNum n) = ''number''"
| "typeof (JStr s) = ''string''"
| "typeof (JArr xs) = ''object''"
| "typeof (JObj kvs) = ''object''"
| "typeof (JThrown e) = ''object''"

text \<open>
  Property access \<^verbatim>\<open>v.k\<close> for the two keys the program reads (\<^verbatim>\<open>json\<close> and
  \<^verbatim>\<open>csrf_token\<close>): reading a property of \<^verbatim>\<open>undefined\<close> or \<^verbatim>\<open>null\<close> throws a
  TypeError, an object yields the stored value or \<^verbatim>\<open>undefined\<close>, and primitives, arrays
  and error objects have neither key.
\<close>

fun get_prop :: "jsval \<Rightarrow> string \<Rightarrow> error + jsval" where
  "get_prop JUndefined k = Inl TypeError"
| "get_prop JNull k = Inl TypeError"
| "get_prop (JObj kvs) k = Inr (case map_of kvs k of None \<Rightarrow> JUndefined | Some v \<Rightarrow> v)"
| "get_prop v k = Inr JUndefined"

text \<open>The operator \<^verbatim>\<open>a || b\<close> on optional strings and numbers: the empty string, zero
  and \<^verbatim>\<open>undefined\<close> are falsy.\<close>

definition or_string :: "string option \<Rightarrow> string option \<Rightarrow> string option" where
  "or_string a b = (case a of None \<Rightarrow> b | Some s \<Rightarrow> if s = [] then b else Some s)"

definition or_number :: "int option \<Rightarrow> int option \<Rightarrow> int option" where
  "or_number a b = (case a of None \<Rightarrow> b | Some n \<Rightarrow> if n = 0 then b else Some n)"

section \<open>Data model\<close>

type_synonym pid = nat    \<comment> \<open>reference to a promise\<close>
type_synonym cid = nat    \<comment> \<open>reference to a client object\<close>
type_synonym oid = nat    \<comment> \<open>reference to a headers object\<close>

type_synonym Headers = "string \<rightharpoonup> string"

text \<open>\<^verbatim>\<open>interface ClientConfig\<close>: every field is optional.\<close>

record ClientConfig =
  cfg_credentials :: "string option"
  cfg_csrfToken :: "string option"
  cfg_headers :: "oid option"
  cfg_host :: "string option"
  cfg_protocol :: "string option"
  cfg_mode :: "string option"
  cfg_timeout :: "int option"

text \<open>The configuration \<^verbatim>\<open>{}\<close>.\<close>

definition empty_config :: ClientConfig where
  "empty_config = \<lparr>cfg_credentials = None, cfg_csrfToken = None, cfg_headers = None,
     cfg_host = None, cfg_protocol = None, cfg_mode = None, cfg_timeout = None\<rparr>"

text \<open>The fields of \<^verbatim>\<open>class SupersetClient\<close>.\<close>

record SupersetClient =
  credentials :: "string option"
  csrfToken :: jsval
  csrfPromise :: pid
  protocol :: string
  host :: string
  headers :: oid
  mode :: string
  timeout :: "int option"

text \<open>The fields of \<^verbatim>\<open>RequestConfig\<close> that \<^verbatim>\<open>get\<close> and \<^verbatim>\<open>post\<close> destructure.\<close>

record RequestConfig =
  req_body :: jsval
  req_credentials :: "string option"
  req_headers :: "oid option"
  req_host :: "string option"
  req_endpoint :: "string option"
  req_mode :: "string option"
  req_parseMethod :: jsval
  req_postPayload :: jsval
  req_signal :: jsval
  req_stringify :: jsval
  req_timeout :: "int option"
  req_url :: "string option"

text \<open>The argument object handed to the transport function \<^verbatim>\<open>callApi\<close>.\<close>

record CallApiArgs =
  arg_body :: jsval
  arg_credentials :: "string option"
  arg_headers :: Headers
  arg_method :: string
  arg_mode :: string
  arg_parseMethod :: jsval
  arg_postPayload :: jsval
  arg_signal :: jsval
  arg_stringify :: jsval
  arg_timeout :: "int option"
  arg_url :: string

section \<open>Promises and the microtask queue\<close>

datatype pstate = Pending | Fulfilled jsval | Rejected jsval

text \<open>
  The continuations the program attaches to promises: the \<^verbatim>\<open>then\<close> callback of
  \<^verbatim>\<open>getCSRFToken\<close>, the \<^verbatim>\<open>then\<close> callbacks of \<^verbatim>\<open>get\<close> and \<^verbatim>\<open>post\<close> (each with the
  promise that \<^verbatim>\<open>then\<close> returned), and a promise that takes over the outcome of the
  promise it was resolved with.
\<close>

datatype reaction =
    TokenThen cid pid
  | GetThen cid RequestConfig pid
  | PostThen cid RequestConfig pid
  | Follow pid

datatype job =
    React reaction pstate
  | ResolveThenable pid pid

record promise =
  state :: pstate
  reactions :: "reaction list"

record world =
  clients :: "SupersetClient list"
  objs :: "Headers list"
  promises :: "promise list"
  jobs :: "job list"
  calls :: "(CallApiArgs \<times> pid) list"
  singletonClient :: "cid option"

definition init_world :: world where
  "init_world = \<lparr>clients = [], objs = [], promises = [], jobs = [], calls = [],
     singletonClient = None\<rparr>"

definition client :: "world \<Rightarrow> cid \<Rightarrow> SupersetClient" where
  "client w c = clients w ! c"

definition upd_client :: "cid \<Rightarrow> (SupersetClient \<Rightarrow> SupersetClient) \<Rightarrow> world \<Rightarrow> world" where
  "upd_client c f w = w\<lparr>clients := (clients w)[c := f (clients w ! c)]\<rparr>"

definition obj :: "world \<Rightarrow> oid \<Rightarrow> Headers" where
  "obj w a = (if a < length (objs w) then objs w ! a else Map.empty)"

definition new_object :: "Headers \<Rightarrow> world \<Rightarrow> oid \<times> world" where
  "new_object h w = (length (objs w), w\<lparr>objs := objs w @ [h]\<rparr>)"

definition pstate_of :: "world \<Rightarrow> pid \<Rightarrow> pstate" where
  "pstate_of w p = (if p < length (promises w) then state (promises w ! p) else Pending)"

definition reactions_of :: "world \<Rightarrow> pid \<Rightarrow> reaction list" where
  "reactions_of w p = (if p < length (promises w) then reactions (promises w ! p) else [])"

definition new_promise :: "pstate \<Rightarrow> world \<Rightarrow> pid \<times> world" where
  "new_promise st w =
     (length (promises w), w\<lparr>promises := promises w @ [\<lparr>state = st, reactions = []\<rparr>]\<rparr>)"

text \<open>Settling a pending promise queues one job per registered reaction; a promise that
  is already settled keeps its outcome.\<close>

definition settle :: "pid \<Rightarrow> pstate \<Rightarrow> world \<Rightarrow> world" where
  "settle p st w =
     (if p < length (promises w) \<and> state (promises w ! p) = Pending \<and> st \<noteq> Pending
      then w\<lparr>promises := (promises w)[p := \<lparr>state = st, reactions = []\<rparr>],
             jobs := jobs w @ map (\<lambda>r. React r st) (reactions (promises w ! p))\<rparr>
      else w)"

text \<open>\<^verbatim>\<open>p.then(...)\<close>: the reaction waits on a pending promise and is queued at once
  on a settled one.\<close>

definition register :: "pid \<Rightarrow> reaction \<Rightarrow> world \<Rightarrow> world" where
  "register p r w =
     (if p < length (promises w)
      then (case state (promises w ! p) of
              Pending \<Rightarrow>
                w\<lparr>promises := (promises w)[p := (promises w ! p)
                     \<lparr>reactions := reactions (promises w ! p) @ [r]\<rparr>]\<rparr>
            | st \<Rightarrow> w\<lparr>jobs := jobs w @ [React r st]\<rparr>)
      else w)"

text \<open>Resolving promise \<open>a\<close> with the promise \<open>p\<close> (the return value of an async
  function or of a \<^verbatim>\<open>then\<close> callback): a job subscribes \<open>a\<close> to \<open>p\<close>.\<close>

definition resolve_with :: "pid \<Rightarrow> pid \<Rightarrow> world \<Rightarrow> world" where
  "resolve_with a p w = w\<lparr>jobs := jobs w @ [ResolveThenable a p]\<rparr>"

text \<open>
  Modelled from the spec: \<^verbatim>\<open>callApi\<close> (module \<^verbatim>\<open>./callApi\<close>, the transport collaborator)
  accepts the request description and returns a promise of the response; the promise is
  settled later, by the network. The model records the invocation together with the
  promise that was returned.
\<close>

definition callApi :: "CallApiArgs \<Rightarrow> world \<Rightarrow> pid \<times> world" where
  "callApi args w =
     (let (t, w1) = new_promise Pending w
      in (t, w1\<lparr>calls := calls w1 @ [(args, t)]\<rparr>))"

text \<open>The network answers a request: the promise returned by \<^verbatim>\<open>callApi\<close> is fulfilled
  with a response or rejected with an error.\<close>

definition transport_settles :: "pid \<Rightarrow> pstate \<Rightarrow> world \<Rightarrow> world" where
  "transport_settles t outcome w = settle t outcome w"

section \<open>The client\<close>

definition getUrl :: "SupersetClient \<Rightarrow> string option \<Rightarrow> string option \<Rightarrow> string option \<Rightarrow> string" where
  "getUrl this inputHost endpoint0 url =
     (case url of
        Some u \<Rightarrow> u
      | None \<Rightarrow>
          (let endpoint = (case endpoint0 of None \<Rightarrow> [] | Some e \<Rightarrow> e);
               host1 = (case inputHost of None \<Rightarrow> host this
                        | Some h \<Rightarrow> if h = [] then host this else h);
               cleanHost = (if host1 \<noteq> [] \<and> last host1 = CHR ''/'' then butlast host1 else host1)
           in protocol this @ ''//'' @ cleanHost @ ''/'' @
              (if endpoint \<noteq> [] \<and> hd endpoint = CHR ''/'' then tl endpoint else endpoint)))"

definition no_token_message :: "string \<Rightarrow> string" where
  "no_token_message loginUrl =
     ''SupersetClient has no CSRF token, ensure it is initialized or'' @ [CHR 0x0A] @
     ''      try logging into the Superset instance at '' @ loginUrl"

definition isAuthenticated :: "SupersetClient \<Rightarrow> bool" where
  "isAuthenticated this = (csrfToken this \<noteq> JNull \<and> csrfToken this \<noteq> JUndefined)"

text \<open>The constructor. The headers of the configuration are copied into a new object;
  the promise field first holds the rejected promise and is replaced when a token string
  was supplied.\<close>

definition new_SupersetClient :: "ClientConfig \<Rightarrow> world \<Rightarrow> cid \<times> world" where
  "new_SupersetClient config w =
     (let (o1, w1) = new_object (case cfg_headers config of None \<Rightarrow> Map.empty | Some a \<Rightarrow> obj w a) w;
          this0 = \<lparr>credentials = cfg_credentials config,
                   csrfToken = (case cfg_csrfToken config of None \<Rightarrow> JUndefined | Some t \<Rightarrow> JStr t),
                   csrfPromise = 0,
                   protocol = (case cfg_protocol config of None \<Rightarrow> ''http:'' | Some p \<Rightarrow> p),
                   host = (case cfg_host config of None \<Rightarrow> ''localhost'' | Some h \<Rightarrow> h),
                   headers = o1,
                   mode = (case cfg_mode config of None \<Rightarrow> ''same-origin'' | Some m \<Rightarrow> m),
                   timeout = cfg_timeout config\<rparr>;
          (p0, w2) = new_promise
             (Rejected (JObj [(''error'',
                JStr (no_token_message (getUrl this0 None (Some ''/login'') None)))])) w1;
          this1 = this0\<lparr>csrfPromise := p0\<rparr>;
          (this2, w5) =
            (case csrfToken this1 of
               JStr t \<Rightarrow>
                 (let (o2, w3) = new_object ((obj w2 (headers this1))(''X-CSRFToken'' \<mapsto> t)) w2;
                      (p1, w4) = new_promise (Fulfilled (csrfToken this1)) w3
                  in (this1\<lparr>headers := o2, csrfPromise := p1\<rparr>, w4))
             | _ \<Rightarrow> (this1, w2))
      in (length (clients w5), w5\<lparr>clients := clients w5 @ [this2]\<rparr>))"

definition ensureAuth :: "cid \<Rightarrow> world \<Rightarrow> pid" where
  "ensureAuth c w = csrfPromise (client w c)"

text \<open>The \<^verbatim>\<open>then\<close> callback of \<^verbatim>\<open>getCSRFToken\<close>, run with the response: it throws, or
  returns a promise.\<close>

definition token_callback :: "cid \<Rightarrow> jsval \<Rightarrow> world \<Rightarrow> (error + pid) \<times> world" where
  "token_callback c response w =
     (case get_prop response ''json'' of
        Inl e \<Rightarrow> (Inl e, w)
      | Inr json \<Rightarrow>
          (case (if typeof json = ''object''
                 then (case get_prop json ''csrf_token'' of
                         Inl e \<Rightarrow> Inl e
                       | Inr tk \<Rightarrow>
                           (let w1 = upd_client c (\<lambda>this. this\<lparr>csrfToken := tk\<rparr>) w
                            in Inr (case tk of
                                 JStr s \<Rightarrow>
                                   (let (o2, w2) = new_object
                                          ((obj w1 (headers (client w1 c)))(''X-CSRFToken'' \<mapsto> s)) w1
                                    in upd_client c (\<lambda>this. this\<lparr>headers := o2\<rparr>) w2)
                               | _ \<Rightarrow> w1)))
                 else Inr w) of
             Inl e \<Rightarrow> (Inl e, w)
           | Inr w3 \<Rightarrow>
               (if \<not> isAuthenticated (client w3 c)
                then (let (p, w4) = new_promise
                            (Rejected (JObj [(''error'', JStr ''Failed to fetch CSRF token'')])) w3
                      in (Inr p, w4))
                else (let (p, w4) = new_promise (Fulfilled (csrfToken (client w3 c))) w3
                      in (Inr p, w4)))))"

text \<open>\<^verbatim>\<open>async getCSRFToken()\<close>: \<open>a\<close> is the promise of the async function, \<open>t\<close> the
  promise of the transport and \<open>q\<close> the promise returned by \<^verbatim>\<open>then\<close>, which is stored in
  the promise field.\<close>

definition getCSRFToken :: "cid \<Rightarrow> world \<Rightarrow> pid \<times> world" where
  "getCSRFToken c w =
     (let (a, w1) = new_promise Pending w;
          w2 = upd_client c (\<lambda>this. this\<lparr>csrfToken := JUndefined\<rparr>) w1;
          this = client w2 c;
          (t, w3) = callApi
             \<lparr>arg_body = JUndefined,
              arg_credentials = credentials this,
              arg_headers = obj w2 (headers this),
              arg_method = ''GET'',
              arg_mode = mode this,
              arg_parseMethod = JUndefined,
              arg_postPayload = JUndefined,
              arg_signal = JUndefined,
              arg_stringify = JUndefined,
              arg_timeout = timeout this,
              arg_url = getUrl this None (Some ''superset/csrf_token/'') None\<rparr> w2;
          (q, w4) = new_promise Pending w3;
          w5 = register t (TokenThen c q) w4;
          w6 = upd_client c (\<lambda>this. this\<lparr>csrfPromise := q\<rparr>) w5
      in (a, resolve_with a (csrfPromise (client w6 c)) w6))"

text \<open>The request that \<open>getCSRFToken\<close> hands to the transport, for client \<open>c\<close> of world \<open>w\<close>.\<close>

definition token_request :: "world \<Rightarrow> cid \<Rightarrow> CallApiArgs" where
  "token_request w c =
     \<lparr>arg_body = JUndefined, arg_credentials = credentials (client w c),
      arg_headers = obj w (headers (client w c)), arg_method = ''GET'',
      arg_mode = mode (client w c), arg_parseMethod = JUndefined, arg_postPayload = JUndefined,
      arg_signal = JUndefined, arg_stringify = JUndefined, arg_timeout = timeout (client w c),
      arg_url = getUrl (client w c) None (Some ''superset/csrf_token/'') None\<rparr>"

definition init :: "cid \<Rightarrow> bool option \<Rightarrow> world \<Rightarrow> pid \<times> world" where
  "init c force0 w =
     (let force = (case force0 of None \<Rightarrow> False | Some b \<Rightarrow> b)
      in if isAuthenticated (client w c) \<and> \<not> force
         then (csrfPromise (client w c), w)
         else getCSRFToken c w)"

text \<open>\<^verbatim>\<open>async get(...)\<close> and \<^verbatim>\<open>async post(...)\<close>: the request is performed by the
  callback, once the promise returned by \<^verbatim>\<open>ensureAuth\<close> is fulfilled.\<close>

definition get :: "cid \<Rightarrow> RequestConfig \<Rightarrow> world \<Rightarrow> pid \<times> world" where
  "get c request w =
     (let (a, w1) = new_promise Pending w;
          (q, w2) = new_promise Pending w1;
          w3 = register (ensureAuth c w2) (GetThen c request q) w2
      in (a, resolve_with a q w3))"

definition post :: "cid \<Rightarrow> RequestConfig \<Rightarrow> world \<Rightarrow> pid \<times> world" where
  "post c request w =
     (let (a, w1) = new_promise Pending w;
          (q, w2) = new_promise Pending w1;
          w3 = register (ensureAuth c w2) (PostThen c request q) w2
      in (a, resolve_with a q w3))"

definition request_headers :: "world \<Rightarrow> cid \<Rightarrow> RequestConfig \<Rightarrow> Headers" where
  "request_headers w c request =
     obj w (headers (client w c)) ++
     (case req_headers request of None \<Rightarrow> Map.empty | Some a \<Rightarrow> obj w a)"

text \<open>The argument objects that the callbacks of \<open>get\<close> and \<open>post\<close> build, from the
  client as it is when the callback runs and the merged headers.\<close>

definition get_args :: "SupersetClient \<Rightarrow> Headers \<Rightarrow> RequestConfig \<Rightarrow> CallApiArgs" where
  "get_args this hs request =
     \<lparr>arg_body = req_body request,
      arg_credentials = or_string (req_credentials request) (credentials this),
      arg_headers = hs,
      arg_method = ''GET'',
      arg_mode = the (or_string (req_mode request) (Some (mode this))),
      arg_parseMethod = req_parseMethod request,
      arg_postPayload = JUndefined,
      arg_signal = req_signal request,
      arg_stringify = JUndefined,
      arg_timeout = or_number (req_timeout request) (timeout this),
      arg_url = getUrl this (req_host request) (req_endpoint request) (req_url request)\<rparr>"

definition post_args :: "SupersetClient \<Rightarrow> Headers \<Rightarrow> RequestConfig \<Rightarrow> CallApiArgs" where
  "post_args this hs request =
     \<lparr>arg_body = JUndefined,
      arg_credentials = or_string (req_credentials request) (credentials this),
      arg_headers = hs,
      arg_method = ''POST'',
      arg_mode = the (or_string (req_mode request) (Some (mode this))),
      arg_parseMethod = req_parseMethod request,
      arg_postPayload = req_postPayload request,
      arg_signal = req_signal request,
      arg_stringify = req_stringify request,
      arg_timeout = or_number (req_timeout request) (timeout this),
      arg_url = getUrl this (req_host request) (req_endpoint request) (req_url request)\<rparr>"

definition get_callback :: "cid \<Rightarrow> RequestConfig \<Rightarrow> world \<Rightarrow> pid \<times> world" where
  "get_callback c request w =
     callApi (get_args (client w c) (request_headers w c request) request) w"

definition post_callback :: "cid \<Rightarrow> RequestConfig \<Rightarrow> world \<Rightarrow> pid \<times> world" where
  "post_callback c request w =
     callApi (post_args (client w c) (request_headers w c request) request) w"

section \<open>The registry\<close>

text \<open>The module-level variable \<^verbatim>\<open>singletonClient\<close> is the field \<open>singletonClient\<close> of the
  world. \<^verbatim>\<open>hasInstance\<close> throws when it holds no client; each entry point of
  \<^verbatim>\<open>PublicAPI\<close> evaluates \<^verbatim>\<open>hasInstance(singletonClient) && singletonClient.m(...)\<close>.\<close>

definition not_configured :: error where
  "not_configured = Error ''You must call SupersetClient.configure(...) before calling other methods''"

definition hasInstance :: "cid option \<Rightarrow> error + cid" where
  "hasInstance maybeClient = (case maybeClient of None \<Rightarrow> Inl not_configured | Some c \<Rightarrow> Inr c)"

definition configure :: "ClientConfig \<Rightarrow> world \<Rightarrow> cid \<times> world" where
  "configure config w =
     (let (c, w1) = new_SupersetClient config w
      in (c, w1\<lparr>singletonClient := Some c\<rparr>))"

definition reset :: "world \<Rightarrow> world" where
  "reset w = w\<lparr>singletonClient := None\<rparr>"

definition PublicAPI_get :: "RequestConfig \<Rightarrow> world \<Rightarrow> error + pid \<times> world" where
  "PublicAPI_get request w =
     (case hasInstance (singletonClient w) of Inl e \<Rightarrow> Inl e | Inr c \<Rightarrow> Inr (get c request w))"

definition PublicAPI_init :: "bool option \<Rightarrow> world \<Rightarrow> error + pid \<times> world" where
  "PublicAPI_init force w =
     (case hasInstance (singletonClient w) of Inl e \<Rightarrow> Inl e | Inr c \<Rightarrow> Inr (init c force w))"

definition PublicAPI_isAuthenticated :: "world \<Rightarrow> error + bool" where
  "PublicAPI_isAuthenticated w =
     (case hasInstance (singletonClient w) of
        Inl e \<Rightarrow> Inl e
      | Inr c \<Rightarrow> Inr (isAuthenticated (client w c)))"

definition PublicAPI_post :: "RequestConfig \<Rightarrow> world \<Rightarrow> error + pid \<times> world" where
  "PublicAPI_post request w =
     (case hasInstance (singletonClient w) of Inl e \<Rightarrow> Inl e | Inr c \<Rightarrow> Inr (post c request w))"

definition PublicAPI_reAuthenticate :: "world \<Rightarrow> error + pid \<times> world" where
  "PublicAPI_reAuthenticate w =
     (case hasInstance (singletonClient w) of
        Inl e \<Rightarrow> Inl e
      | Inr c \<Rightarrow> Inr (init c (Some True) w))"

section \<open>The specification's wording of \<open>resolveUrl\<close>\<close>

text \<open>Stripping exactly one trailing slash and exactly one leading slash, written by
  pattern matching; \<open>getUrl\<close> above follows the source and slices.\<close>

definition strip_trailing_slash :: "string \<Rightarrow> string" where
  "strip_trailing_slash h =
     (case rev h of [] \<Rightarrow> h | x # r \<Rightarrow> if x = CHR ''/'' then rev r else h)"

definition strip_leading_slash :: "string \<Rightarrow> string" where
  "strip_leading_slash e =
     (case e of [] \<Rightarrow> e | x # r \<Rightarrow> if x = CHR ''/'' then r else e)"

text \<open>The host of a call: the override of the call when it is a non-empty string (an
  empty string is falsy for \<^verbatim>\<open>||\<close>), the host of the instance otherwise.\<close>

definition chosen_host :: "string option \<Rightarrow> string \<Rightarrow> string" where
  "chosen_host override instanceHost =
     (case override of None \<Rightarrow> instanceHost | Some h \<Rightarrow> if h = [] then instanceHost else h)"

definition resolveUrl_spec ::
  "string \<Rightarrow> string \<Rightarrow> string option \<Rightarrow> string option \<Rightarrow> string option \<Rightarrow> string" where
  "resolveUrl_spec proto instanceHost override endpoint url =
     (case url of
        Some u \<Rightarrow> u
      | None \<Rightarrow>
          proto @ ''//'' @ strip_trailing_slash (chosen_host override instanceHost) @ ''/'' @
          strip_leading_slash (case endpoint of None \<Rightarrow> [] | Some e \<Rightarrow> e))"

text \<open>A value that is defined: neither \<^verbatim>\<open>undefined\<close> nor \<^verbatim>\<open>null\<close>. The empty string is
  a defined value.\<close>

fun defined_value :: "jsval \<Rightarrow> bool" where
  "defined_value JUndefined = False"
| "defined_value JNull = False"
| "defined_value v = True"

section \<open>Running the microtask queue\<close>

definition run_job :: "job \<Rightarrow> world \<Rightarrow> world" where
  "run_job j w =
     (case j of
        ResolveThenable a p \<Rightarrow> register p (Follow a) w
      | React r st \<Rightarrow>
          (case r of
             Follow a \<Rightarrow> settle a st w
           | TokenThen c q \<Rightarrow>
               (case st of
                  Fulfilled response \<Rightarrow>
                    (case token_callback c response w of
                       (Inl e, w1) \<Rightarrow> settle q (Rejected (JThrown e)) w1
                     | (Inr p, w1) \<Rightarrow> resolve_with q p w1)
                | _ \<Rightarrow> settle q st w)
           | GetThen c request q \<Rightarrow>
               (case st of
                  Fulfilled v \<Rightarrow> (let (t, w1) = get_callback c request w in resolve_with q t w1)
                | _ \<Rightarrow> settle q st w)
           | PostThen c request q \<Rightarrow>
               (case st of
                  Fulfilled v \<Rightarrow> (let (t, w1) = post_callback c request w in resolve_with q t w1)
                | _ \<Rightarrow> settle q st w)))"

text \<open>
  Draining the queue terminates: every job that runs a callback or subscribes a promise
  uses up weight, and a job that only passes an outcome on either settles one more pending
  promise or leaves the queue shorter.
\<close>

definition wt_reaction :: "reaction \<Rightarrow> nat" where
  "wt_reaction r = (case r of Follow a \<Rightarrow> 0 | _ \<Rightarrow> 2)"

definition wt_job :: "job \<Rightarrow> nat" where
  "wt_job j = (case j of React r st \<Rightarrow> wt_reaction r | ResolveThenable a p \<Rightarrow> 1)"

definition pending_work :: "world \<Rightarrow> nat" where
  "pending_work w =
     sum_list (map (\<lambda>p. sum_list (map wt_reaction (reactions p))) (promises w)) +
     sum_list (map wt_job (jobs w))"

definition pending_count :: "world \<Rightarrow> nat" where
  "pending_count w = length (filter (\<lambda>p. state p = Pending) (promises w))"

lemma sum_list_map_update:
  fixes f :: "'a \<Rightarrow> nat"
  shows "i < length xs \<Longrightarrow> sum_list (map f (xs[i := y])) + f (xs ! i) = sum_list (map f xs) + f y"
proof (induction xs arbitrary: i)
  case Nil
  then show ?case by simp
next
  case (Cons x xs)
  then show ?case by (cases i) auto
qed

lemma filter_update_less:
  "i < length xs \<Longrightarrow> P (xs ! i) \<Longrightarrow> \<not> P y \<Longrightarrow>
   length (filter P (xs[i := y])) < length (filter P xs)"
proof (induction xs arbitrary: i)
  case Nil
  then show ?case by simp
next
  case (Cons x xs)
  then show ?case by (cases i) (auto simp: less_Suc_eq_le Suc_le_eq)
qed

lemma sum_wt_React: "sum_list (map wt_job (map (\<lambda>r. React r st) rs)) = sum_list (map wt_reaction rs)"
  by (induction rs) (auto simp: wt_job_def)

lemma pending_work_settle [simp]: "pending_work (settle p st w) = pending_work w"
  using sum_list_map_update [of p "promises w" "\<lambda>p. sum_list (map wt_reaction (reactions p))" "\<lparr>state = st, reactions = []\<rparr>"]
  by (auto simp: settle_def pending_work_def wt_job_def o_def)

lemma settle_cases:
  "settle p st w = w \<or> pending_count (settle p st w) < pending_count w"
  by (auto simp: settle_def pending_count_def intro!: filter_update_less)

lemma pending_work_register [simp]:
  "pending_work (register p r w) \<le> pending_work w + wt_reaction r"
  using sum_list_map_update [of p "promises w" "\<lambda>p. sum_list (map wt_reaction (reactions p))"
      "(promises w ! p)\<lparr>reactions := reactions (promises w ! p) @ [r]\<rparr>"]
  by (auto simp: register_def pending_work_def wt_job_def split: pstate.splits)

lemma register_Follow_cases:
  "pending_work (register p (Follow a) w) = pending_work w"
  using sum_list_map_update [of p "promises w" "\<lambda>p. sum_list (map wt_reaction (reactions p))"
      "(promises w ! p)\<lparr>reactions := reactions (promises w ! p) @ [Follow a]\<rparr>"]
  by (auto simp: register_def pending_work_def wt_job_def wt_reaction_def split: pstate.splits)

lemma pending_work_resolve_with [simp]: "pending_work (resolve_with a p w) = pending_work w + 1"
  by (simp add: resolve_with_def pending_work_def wt_job_def)

lemma pending_work_new_promise [simp]: "pending_work (snd (new_promise st w)) = pending_work w"
  by (simp add: new_promise_def pending_work_def)

lemma pending_work_callApi [simp]: "pending_work (snd (callApi args w)) = pending_work w"
  by (simp add: callApi_def pending_work_def new_promise_def)

lemma pending_work_upd_client [simp]: "pending_work (upd_client c f w) = pending_work w"
  by (simp add: upd_client_def pending_work_def)

lemma pending_work_new_object [simp]: "pending_work (snd (new_object h w)) = pending_work w"
  by (simp add: new_object_def pending_work_def)

lemma pending_work_token_callback [simp]:
  "pending_work (snd (token_callback c response w)) = pending_work w"
  by (auto simp: token_callback_def Let_def split_beta split: sum.splits jsval.splits)

lemma token_callback_work:
  "token_callback c response w = (x, w1) \<Longrightarrow> pending_work w1 = pending_work w"
  using pending_work_token_callback [of c response w] by simp

lemma get_callback_work:
  "get_callback c request w = (t, w1) \<Longrightarrow> pending_work w1 = pending_work w"
  using pending_work_callApi [of _ w] by (auto simp: get_callback_def Let_def dest: sndI)

lemma post_callback_work:
  "post_callback c request w = (t, w1) \<Longrightarrow> pending_work w1 = pending_work w"
  using pending_work_callApi [of _ w] by (auto simp: post_callback_def Let_def dest: sndI)

lemma pending_work_tl: "jobs w = j # js \<Longrightarrow> pending_work w = pending_work (w\<lparr>jobs := js\<rparr>) + wt_job j"
  by (simp add: pending_work_def)

definition drain_measure :: "world \<Rightarrow> nat \<times> nat \<times> nat" where
  "drain_measure w = (pending_work w, pending_count w, length (jobs w))"

lemma run_job_decreases:
  assumes "jobs w = j # js"
  shows "(drain_measure (run_job j (w\<lparr>jobs := js\<rparr>)), drain_measure w)
           \<in> less_than <*lex*> less_than <*lex*> less_than"
proof -
  let ?w = "w\<lparr>jobs := js\<rparr>"
  have pw: "pending_work w = pending_work ?w + wt_job j"
    using assms by (rule pending_work_tl)
  have pc: "pending_count ?w = pending_count w" by (simp add: pending_count_def)
  have len: "length (jobs ?w) < length (jobs w)" using assms by simp
  show ?thesis
  proof (cases j)
    case (ResolveThenable a p)
    then show ?thesis
      using pw register_Follow_cases [of p a ?w]
      by (simp add: drain_measure_def run_job_def wt_job_def)
  next
    case (React r st)
    show ?thesis
    proof (cases r)
      case (Follow a)
      then show ?thesis
        using React pw pc len settle_cases [of a st ?w]
        by (auto simp: drain_measure_def run_job_def wt_job_def wt_reaction_def)
    next
      case (TokenThen c q)
      then show ?thesis
        using React pw
        by (auto simp: drain_measure_def run_job_def wt_job_def wt_reaction_def
            split: pstate.splits prod.splits sum.splits dest!: token_callback_work)
    next
      case (GetThen c request q)
      then show ?thesis
        using React pw
        by (auto simp: drain_measure_def run_job_def wt_job_def wt_reaction_def
            split: pstate.splits prod.splits dest!: get_callback_work)
    next
      case (PostThen c request q)
      then show ?thesis
        using React pw
        by (auto simp: drain_measure_def run_job_def wt_job_def wt_reaction_def
            split: pstate.splits prod.splits dest!: post_callback_work)
    qed
  qed
qed

text \<open>The event loop runs queued jobs, oldest first, until none is left.\<close>

function drain :: "world \<Rightarrow> world" where
  "drain w = (case jobs w of [] \<Rightarrow> w | j # js \<Rightarrow> drain (run_job j (w\<lparr>jobs := js\<rparr>)))"
  by pat_completeness auto
termination
  by (relation "inv_image (less_than <*lex*> less_than <*lex*> less_than) drain_measure")
     (auto intro: run_job_decreases simp del: in_inv_image simp add: in_inv_image)

declare drain.simps [simp del]

lemma drain_Nil: "jobs w = [] \<Longrightarrow> drain w = w"
  by (subst drain.simps) simp

lemma drain_Cons: "jobs w = j # js \<Longrightarrow> drain w = drain (run_job j (w\<lparr>jobs := js\<rparr>))"
  by (subst drain.simps) simp

lemma drain_step:
  "jobs w \<noteq> [] \<Longrightarrow> drain w = drain (run_job (hd (jobs w)) (w\<lparr>jobs := tl (jobs w)\<rparr>))"
  by (subst drain.simps) (simp split: list.splits)

lemmas sem_defs = get_def post_def getCSRFToken_def init_def callApi_def new_promise_def
  register_def resolve_with_def settle_def upd_client_def ensureAuth_def client_def
  run_job_def transport_settles_def Let_def split_beta

lemmas drain_simps = drain_step drain_Nil

lemmas job_defs = run_job_def settle_def register_def resolve_with_def

text \<open>What a caller observes of a call that returned a promise: the state of that promise
  and the requests handed to the transport, once the queue has drained; and the same after
  the network has then settled the transport promise \<open>t\<close>.\<close>

definition outcome :: "pid \<times> world \<Rightarrow> pstate" where
  "outcome r = pstate_of (drain (snd r)) (fst r)"

definition calls_after :: "pid \<times> world \<Rightarrow> (CallApiArgs \<times> pid) list" where
  "calls_after r = calls (drain (snd r))"

definition and_then_settles :: "pid \<Rightarrow> pstate \<Rightarrow> pid \<times> world \<Rightarrow> pid \<times> world" where
  "and_then_settles t st r = (fst r, transport_settles t st (drain (snd r)))"

section \<open>URL resolution\<close>

lemma strip_trailing_slash_eq:
  "strip_trailing_slash h = (if h \<noteq> [] \<and> last h = CHR ''/'' then butlast h else h)"
  by (cases h rule: rev_cases) (simp_all add: strip_trailing_slash_def)

lemma strip_leading_slash_eq:
  "strip_leading_slash e = (if e \<noteq> [] \<and> hd e = CHR ''/'' then tl e else e)"
  by (cases e) (simp_all add: strip_leading_slash_def)

text \<open>
  Claim C8. \<open>getUrl\<close> returns an explicit url verbatim, whatever host and endpoint are.
  Otherwise the result is the protocol of the instance, \<^verbatim>\<open>//\<close>, the chosen host without
  one trailing slash, \<^verbatim>\<open>/\<close>, and the endpoint without one leading slash: the slicing of
  the source computes what the specification words (\<open>resolveUrl_spec\<close>). The two strip
  functions remove exactly one slash, and only when it is there. Host \<^verbatim>\<open>example.com/\<close>,
  endpoint \<^verbatim>\<open>/api/x\<close> and protocol \<^verbatim>\<open>http:\<close> give \<^verbatim>\<open>http://example.com/api/x\<close>, with the
  host as the override of the call or as the host of the instance.
\<close>

theorem getUrl_resolves:
  "getUrl this inputHost endpoint (Some u) = u
   \<and> getUrl this inputHost endpoint url =
       resolveUrl_spec (protocol this) (host this) inputHost endpoint url
   \<and> strip_trailing_slash (h @ ''/'') = h
   \<and> strip_trailing_slash (h @ [x]) = (if x = CHR ''/'' then h else h @ [x])
   \<and> strip_trailing_slash [] = []
   \<and> strip_leading_slash (x # e) = (if x = CHR ''/'' then e else x # e)
   \<and> strip_leading_slash [] = []
   \<and> getUrl (this\<lparr>protocol := ''http:''\<rparr>) (Some ''example.com/'') (Some ''/api/x'') None
       = ''http://example.com/api/x''
   \<and> getUrl (this\<lparr>protocol := ''http:'', host := ''example.com/''\<rparr>) None (Some ''/api/x'') None
       = ''http://example.com/api/x''"
  by (simp add: getUrl_def resolveUrl_spec_def strip_trailing_slash_eq strip_leading_slash_eq
      chosen_host_def split: option.splits)

section \<open>Authentication state\<close>

text \<open>
  Claim C6. \<open>isAuthenticated\<close> is true exactly when the current token is a defined
  value. The empty string, like every string, is a defined value, so a client whose
  token is the empty string is authenticated; a client whose token is \<^verbatim>\<open>undefined\<close> (or
  \<^verbatim>\<open>null\<close>) is not.
\<close>

theorem isAuthenticated_iff_defined:
  "isAuthenticated this = defined_value (csrfToken this)
   \<and> isAuthenticated (this\<lparr>csrfToken := JStr []\<rparr>)
   \<and> isAuthenticated (this\<lparr>csrfToken := JStr s\<rparr>)
   \<and> \<not> isAuthenticated (this\<lparr>csrfToken := JUndefined\<rparr>)
   \<and> \<not> isAuthenticated (this\<lparr>csrfToken := JNull\<rparr>)"
  by (cases "csrfToken this") (simp_all add: isAuthenticated_def)

section \<open>Construction\<close>

text \<open>The result of the constructor in closed form, for a configuration without and
  with a token.\<close>

definition config_headers :: "ClientConfig \<Rightarrow> world \<Rightarrow> Headers" where
  "config_headers config w = (case cfg_headers config of None \<Rightarrow> Map.empty | Some a \<Rightarrow> obj w a)"

definition configured :: "ClientConfig \<Rightarrow> SupersetClient" where
  "configured config =
     \<lparr>credentials = cfg_credentials config,
      csrfToken = (case cfg_csrfToken config of None \<Rightarrow> JUndefined | Some t \<Rightarrow> JStr t),
      csrfPromise = 0,
      protocol = (case cfg_protocol config of None \<Rightarrow> ''http:'' | Some p \<Rightarrow> p),
      host = (case cfg_host config of None \<Rightarrow> ''localhost'' | Some h \<Rightarrow> h),
      headers = 0,
      mode = (case cfg_mode config of None \<Rightarrow> ''same-origin'' | Some m \<Rightarrow> m),
      timeout = cfg_timeout config\<rparr>"

definition no_token_payload :: "SupersetClient \<Rightarrow> jsval" where
  "no_token_payload this =
     JObj [(''error'', JStr (no_token_message (getUrl this None (Some ''/login'') None)))]"

lemma getUrl_cong:
  "protocol this = protocol that \<Longrightarrow> host this = host that \<Longrightarrow>
   getUrl this h e u = getUrl that h e u"
  by (cases u; cases h) (simp_all add: getUrl_def)

lemma new_SupersetClient_None:
  assumes "cfg_csrfToken config = None"
  shows "new_SupersetClient config w =
     (length (clients w),
      w\<lparr>clients := clients w @
           [(configured config)\<lparr>csrfPromise := length (promises w), headers := length (objs w)\<rparr>],
        objs := objs w @ [config_headers config w],
        promises := promises w @
           [\<lparr>state = Rejected (no_token_payload (configured config)), reactions = []\<rparr>]\<rparr>)"
proof -
  have "getUrl \<lparr>credentials = cfg_credentials config, csrfToken = JUndefined, csrfPromise = 0,
           protocol = (case cfg_protocol config of None \<Rightarrow> ''http:'' | Some p \<Rightarrow> p),
           host = (case cfg_host config of None \<Rightarrow> ''localhost'' | Some h \<Rightarrow> h),
           headers = length (objs w),
           mode = (case cfg_mode config of None \<Rightarrow> ''same-origin'' | Some m \<Rightarrow> m),
           timeout = cfg_timeout config\<rparr> None (Some ''/login'') None
        = getUrl (configured config) None (Some ''/login'') None"
    by (rule getUrl_cong) (simp_all add: configured_def)
  then show ?thesis
    using assms
    by (simp add: new_SupersetClient_def new_object_def new_promise_def config_headers_def
        configured_def no_token_payload_def)
qed

lemma new_SupersetClient_Some:
  assumes "cfg_csrfToken config = Some t"
  shows "new_SupersetClient config w =
     (length (clients w),
      w\<lparr>clients := clients w @
           [(configured config)\<lparr>csrfPromise := Suc (length (promises w)),
              headers := Suc (length (objs w))\<rparr>],
        objs := objs w @ [config_headers config w, (config_headers config w)(''X-CSRFToken'' \<mapsto> t)],
        promises := promises w @
           [\<lparr>state = Rejected (no_token_payload (configured config)), reactions = []\<rparr>,
            \<lparr>state = Fulfilled (JStr t), reactions = []\<rparr>]\<rparr>)"
proof -
  have "getUrl \<lparr>credentials = cfg_credentials config, csrfToken = JStr t, csrfPromise = 0,
           protocol = (case cfg_protocol config of None \<Rightarrow> ''http:'' | Some p \<Rightarrow> p),
           host = (case cfg_host config of None \<Rightarrow> ''localhost'' | Some h \<Rightarrow> h),
           headers = length (objs w),
           mode = (case cfg_mode config of None \<Rightarrow> ''same-origin'' | Some m \<Rightarrow> m),
           timeout = cfg_timeout config\<rparr> None (Some ''/login'') None
        = getUrl (configured config) None (Some ''/login'') None"
    by (rule getUrl_cong) (simp_all add: configured_def)
  then show ?thesis
    using assms
    by (simp add: new_SupersetClient_def new_object_def new_promise_def config_headers_def
        configured_def no_token_payload_def obj_def)
qed


lemma login_url: "getUrl this None (Some ''/login'') None
   = protocol this @ ''//'' @ strip_trailing_slash (host this) @ ''/login''"
  by (simp add: getUrl_def strip_trailing_slash_eq)

lemma new_SupersetClient_empty:
  "new_SupersetClient empty_config w =
     (length (clients w),
      w\<lparr>clients := clients w @
           [\<lparr>credentials = None, csrfToken = JUndefined, csrfPromise = length (promises w),
             protocol = ''http:'', host = ''localhost'', headers = length (objs w),
             mode = ''same-origin'', timeout = None\<rparr>],
        objs := objs w @ [Map.empty],
        promises := promises w @
           [\<lparr>state = Rejected (no_token_payload (configured empty_config)), reactions = []\<rparr>]\<rparr>)"
  by (simp add: new_SupersetClient_None empty_config_def configured_def config_headers_def)

text \<open>
  Claim C10. The constructor never fails: for every configuration it appends one client
  to the store. A field that the configuration omits gets its default (protocol
  \<^verbatim>\<open>http:\<close>, host \<^verbatim>\<open>localhost\<close>, mode \<^verbatim>\<open>same-origin\<close>, headers \<^verbatim>\<open>{}\<close>), and credentials,
  timeout and token stay undefined when omitted. The headers of the client are a new
  object holding a copy of the supplied headers (plus the token header when a token was
  supplied): assigning to any object that existed before the call, the caller's among
  them, leaves the headers of the client as they are. For the empty configuration the
  client is the all-defaults client.
\<close>

theorem constructor_defaults:
  "fst (new_SupersetClient config w) = length (clients w)
   \<and> clients (snd (new_SupersetClient config w)) =
       clients w @ [client (snd (new_SupersetClient config w)) (fst (new_SupersetClient config w))]
   \<and> protocol (client (snd (new_SupersetClient config w)) (fst (new_SupersetClient config w)))
       = (case cfg_protocol config of None \<Rightarrow> ''http:'' | Some p \<Rightarrow> p)
   \<and> host (client (snd (new_SupersetClient config w)) (fst (new_SupersetClient config w)))
       = (case cfg_host config of None \<Rightarrow> ''localhost'' | Some h \<Rightarrow> h)
   \<and> mode (client (snd (new_SupersetClient config w)) (fst (new_SupersetClient config w)))
       = (case cfg_mode config of None \<Rightarrow> ''same-origin'' | Some m \<Rightarrow> m)
   \<and> credentials (client (snd (new_SupersetClient config w)) (fst (new_SupersetClient config w)))
       = cfg_credentials config
   \<and> timeout (client (snd (new_SupersetClient config w)) (fst (new_SupersetClient config w)))
       = cfg_timeout config
   \<and> csrfToken (client (snd (new_SupersetClient config w)) (fst (new_SupersetClient config w)))
       = (case cfg_csrfToken config of None \<Rightarrow> JUndefined | Some t \<Rightarrow> JStr t)
   \<and> obj (snd (new_SupersetClient config w))
         (headers (client (snd (new_SupersetClient config w)) (fst (new_SupersetClient config w))))
       = (case cfg_csrfToken config of
            None \<Rightarrow> (case cfg_headers config of None \<Rightarrow> Map.empty | Some a \<Rightarrow> obj w a)
          | Some t \<Rightarrow> (case cfg_headers config of None \<Rightarrow> Map.empty | Some a \<Rightarrow> obj w a)
                        (''X-CSRFToken'' \<mapsto> t))
   \<and> length (objs w)
       \<le> headers (client (snd (new_SupersetClient config w)) (fst (new_SupersetClient config w)))
   \<and> (if a < length (objs w)
       then obj (snd (new_SupersetClient config w)\<lparr>objs := (objs (snd (new_SupersetClient config w)))[a := h]\<rparr>)
              (headers (client (snd (new_SupersetClient config w)) (fst (new_SupersetClient config w))))
            = obj (snd (new_SupersetClient config w))
              (headers (client (snd (new_SupersetClient config w)) (fst (new_SupersetClient config w))))
       else True)
   \<and> client (snd (new_SupersetClient empty_config w)) (fst (new_SupersetClient empty_config w))
       = \<lparr>credentials = None, csrfToken = JUndefined, csrfPromise = length (promises w),
          protocol = ''http:'', host = ''localhost'', headers = length (objs w),
          mode = ''same-origin'', timeout = None\<rparr>
   \<and> obj (snd (new_SupersetClient empty_config w)) (length (objs w)) = Map.empty"
proof (cases "cfg_csrfToken config")
  case None
  show ?thesis
    by (simp add: new_SupersetClient_None [OF None] new_SupersetClient_empty None client_def
        obj_def configured_def config_headers_def nth_append)
next
  case (Some t)
  show ?thesis
    by (simp add: new_SupersetClient_Some [OF Some] new_SupersetClient_empty Some client_def
        obj_def configured_def config_headers_def nth_append)
qed

text \<open>
  Claim C4. When the configuration supplies a token string (the empty string included),
  the new client is authenticated, its headers hold the token under \<^verbatim>\<open>X-CSRFToken\<close>, its
  promise field is a promise fulfilled with the token, and \<open>init\<close> returns that promise
  and changes nothing, so no request is made. When the configuration supplies no token,
  the client is not authenticated and the promise field is a promise rejected with
  \<^verbatim>\<open>{error: message}\<close>. The message is the text
  \<^verbatim>\<open>SupersetClient has no CSRF token, ensure it is initialized or\<close>, a line break, six
  blanks and \<^verbatim>\<open>try logging into the Superset instance at \<close>, followed by the login URL of
  the instance: its protocol, \<^verbatim>\<open>//\<close>, its host without one trailing slash, and
  \<^verbatim>\<open>/login\<close>.
\<close>

theorem constructor_token:
  "(case cfg_csrfToken config of
      Some t \<Rightarrow>
        isAuthenticated (client (snd (new_SupersetClient config w)) (fst (new_SupersetClient config w)))
        \<and> obj (snd (new_SupersetClient config w))
             (headers (client (snd (new_SupersetClient config w)) (fst (new_SupersetClient config w))))
             ''X-CSRFToken'' = Some t
        \<and> pstate_of (snd (new_SupersetClient config w))
             (csrfPromise (client (snd (new_SupersetClient config w)) (fst (new_SupersetClient config w))))
           = Fulfilled (JStr t)
        \<and> init (fst (new_SupersetClient config w)) None (snd (new_SupersetClient config w))
           = (csrfPromise (client (snd (new_SupersetClient config w)) (fst (new_SupersetClient config w))),
              snd (new_SupersetClient config w))
        \<and> calls (snd (init (fst (new_SupersetClient config w)) None (snd (new_SupersetClient config w))))
           = calls w
    | None \<Rightarrow>
        \<not> isAuthenticated (client (snd (new_SupersetClient config w)) (fst (new_SupersetClient config w)))
        \<and> pstate_of (snd (new_SupersetClient config w))
             (csrfPromise (client (snd (new_SupersetClient config w)) (fst (new_SupersetClient config w))))
           = Rejected (JObj [(''error'', JStr
               (''SupersetClient has no CSRF token, ensure it is initialized or'' @ [CHR 0x0A] @
                ''      try logging into the Superset instance at '' @
                protocol (client (snd (new_SupersetClient config w)) (fst (new_SupersetClient config w)))
                @ ''//'' @
                strip_trailing_slash
                  (host (client (snd (new_SupersetClient config w)) (fst (new_SupersetClient config w))))
                @ ''/login''))]))"
proof (cases "cfg_csrfToken config")
  case None
  show ?thesis
    by (simp add: new_SupersetClient_None [OF None] None client_def pstate_of_def
        configured_def no_token_payload_def no_token_message_def login_url isAuthenticated_def)
next
  case (Some t)
  show ?thesis
    by (simp add: new_SupersetClient_Some [OF Some] Some client_def pstate_of_def obj_def
        configured_def init_def isAuthenticated_def nth_append)
qed

theorem constructor_token_witness:
  "isAuthenticated (client (snd (new_SupersetClient (empty_config\<lparr>cfg_csrfToken := Some []\<rparr>) init_world)) 0)
   \<and> pstate_of (snd (new_SupersetClient (empty_config\<lparr>cfg_csrfToken := Some []\<rparr>) init_world)) 1
       = Fulfilled (JStr [])
   \<and> pstate_of (snd (new_SupersetClient empty_config init_world)) 0
       = Rejected (JObj [(''error'', JStr
           (''SupersetClient has no CSRF token, ensure it is initialized or'' @ [CHR 0x0A] @
            ''      try logging into the Superset instance at http://localhost/login''))])"
  using constructor_token [of "empty_config\<lparr>cfg_csrfToken := Some []\<rparr>" init_world]
    constructor_token [of empty_config init_world]
  by (simp add: new_SupersetClient_empty new_SupersetClient_None new_SupersetClient_Some
      empty_config_def init_world_def strip_trailing_slash_def client_def pstate_of_def
      configured_def no_token_payload_def no_token_message_def login_url)

section \<open>Two example worlds\<close>

text \<open>The registry configured with the empty configuration, and with a configuration that
  supplies the token \<^verbatim>\<open>abc\<close>.\<close>

definition token_config :: ClientConfig where
  "token_config = empty_config\<lparr>cfg_csrfToken := Some ''abc''\<rparr>"

definition fresh_world :: world where
  "fresh_world = snd (configure empty_config init_world)"

definition authed_world :: world where
  "authed_world = snd (configure token_config init_world)"

definition plain_request :: RequestConfig where
  "plain_request =
     \<lparr>req_body = JUndefined, req_credentials = None, req_headers = None, req_host = None,
      req_endpoint = Some ''/api/x'', req_mode = None, req_parseMethod = JUndefined,
      req_postPayload = JUndefined, req_signal = JUndefined, req_stringify = JUndefined,
      req_timeout = None, req_url = None\<rparr>"

lemma fresh_world_eq:
  "fresh_world =
     \<lparr>clients = [\<lparr>credentials = None, csrfToken = JUndefined, csrfPromise = 0,
                    protocol = ''http:'', host = ''localhost'', headers = 0,
                    mode = ''same-origin'', timeout = None\<rparr>],
      objs = [Map.empty],
      promises = [\<lparr>state = Rejected (JObj [(''error'',
                      JStr (no_token_message ''http://localhost/login''))]), reactions = []\<rparr>],
      jobs = [], calls = [], singletonClient = Some 0\<rparr>"
  unfolding fresh_world_def configure_def new_SupersetClient_empty
  by (simp add: init_world_def no_token_payload_def login_url configured_def empty_config_def
      strip_trailing_slash_def)

lemma authed_world_eq:
  "authed_world =
     \<lparr>clients = [\<lparr>credentials = None, csrfToken = JStr ''abc'', csrfPromise = 1,
                    protocol = ''http:'', host = ''localhost'', headers = 1,
                    mode = ''same-origin'', timeout = None\<rparr>],
      objs = [Map.empty, [''X-CSRFToken'' \<mapsto> ''abc'']],
      promises = [\<lparr>state = Rejected (JObj [(''error'',
                      JStr (no_token_message ''http://localhost/login''))]), reactions = []\<rparr>,
                  \<lparr>state = Fulfilled (JStr ''abc''), reactions = []\<rparr>],
      jobs = [], calls = [], singletonClient = Some 0\<rparr>"
proof -
  have h: "cfg_csrfToken token_config = Some ''abc''"
    by (simp add: token_config_def)
  show ?thesis
    unfolding authed_world_def configure_def new_SupersetClient_Some [OF h]
    by (simp add: init_world_def no_token_payload_def login_url configured_def
        config_headers_def token_config_def empty_config_def strip_trailing_slash_def)
qed

lemma authed_world_facts:
  "isAuthenticated (client authed_world 0)" "csrfPromise (client authed_world 0) = 1"
  "jobs authed_world = []" "calls authed_world = []" "length (clients authed_world) = 1"
  "pstate_of authed_world 1 = Fulfilled (JStr ''abc'')" "singletonClient authed_world = Some 0"
  by (simp_all add: authed_world_eq client_def isAuthenticated_def pstate_of_def)

lemma fresh_world_facts:
  "\<not> isAuthenticated (client fresh_world 0)" "csrfPromise (client fresh_world 0) = 0"
  "jobs fresh_world = []" "calls fresh_world = []" "length (clients fresh_world) = 1"
  "pstate_of fresh_world 0
     = Rejected (JObj [(''error'', JStr (no_token_message ''http://localhost/login''))])"
  "length (promises fresh_world) = 1" "singletonClient fresh_world = Some 0"
  by (simp_all add: fresh_world_eq client_def isAuthenticated_def pstate_of_def)

section \<open>The registry guards its entry points\<close>

text \<open>
  Claim C9. With no client configured, \<open>get\<close>, \<open>post\<close>, \<open>init\<close>, \<open>isAuthenticated\<close> and
  \<open>reAuthenticate\<close> of the registry throw the configuration error; with a client
  configured each returns what the method of that client returns
  (\<open>reAuthenticate\<close> is \<open>init\<close> with force). No client is configured at the start and
  after every \<open>reset\<close>; \<open>configure\<close> installs the client it constructs.
\<close>

theorem registry_guard:
  "(case singletonClient w of
      None \<Rightarrow>
        PublicAPI_get request w = Inl not_configured
        \<and> PublicAPI_post request w = Inl not_configured
        \<and> PublicAPI_init force w = Inl not_configured
        \<and> PublicAPI_isAuthenticated w = Inl not_configured
        \<and> PublicAPI_reAuthenticate w = Inl not_configured
    | Some c \<Rightarrow>
        PublicAPI_get request w = Inr (get c request w)
        \<and> PublicAPI_post request w = Inr (post c request w)
        \<and> PublicAPI_init force w = Inr (init c force w)
        \<and> PublicAPI_isAuthenticated w = Inr (isAuthenticated (client w c))
        \<and> PublicAPI_reAuthenticate w = Inr (init c (Some True) w))
   \<and> singletonClient init_world = None
   \<and> singletonClient (reset w) = None
   \<and> singletonClient (snd (configure config w)) = Some (fst (configure config w))
   \<and> PublicAPI_get request (reset w) = Inl not_configured
   \<and> PublicAPI_post request (reset w) = Inl not_configured
   \<and> PublicAPI_init force (reset w) = Inl not_configured
   \<and> PublicAPI_isAuthenticated (reset w) = Inl not_configured
   \<and> PublicAPI_reAuthenticate (reset w) = Inl not_configured
   \<and> PublicAPI_get request init_world = Inl not_configured
   \<and> PublicAPI_post request init_world = Inl not_configured
   \<and> PublicAPI_init force init_world = Inl not_configured
   \<and> PublicAPI_isAuthenticated init_world = Inl not_configured
   \<and> PublicAPI_reAuthenticate init_world = Inl not_configured"
  by (simp add: PublicAPI_get_def PublicAPI_post_def PublicAPI_init_def
      PublicAPI_isAuthenticated_def PublicAPI_reAuthenticate_def hasInstance_def reset_def
      init_world_def configure_def split_beta split: option.splits)

theorem registry_guard_witness:
  "PublicAPI_isAuthenticated authed_world = Inr True
   \<and> PublicAPI_isAuthenticated fresh_world = Inr False
   \<and> PublicAPI_isAuthenticated (reset authed_world) = Inl not_configured
   \<and> PublicAPI_isAuthenticated init_world = Inl not_configured"
  using registry_guard [where w = authed_world] registry_guard [where w = fresh_world]
    registry_guard [where w = init_world]
  by (simp add: authed_world_facts fresh_world_facts)

section \<open>The calls in closed form\<close>

lemma getUrl_csrfToken_update [simp]:
  "getUrl (this\<lparr>csrfToken := v\<rparr>) h e u = getUrl this h e u"
  by (rule getUrl_cong) simp_all

lemma getCSRFToken_eq:
  "c < length (clients w) \<Longrightarrow>
   getCSRFToken c w =
     (length (promises w),
      w\<lparr>clients := (clients w)[c := (clients w ! c)
           \<lparr>csrfToken := JUndefined, csrfPromise := Suc (Suc (length (promises w)))\<rparr>],
        promises := promises w @
          [\<lparr>state = Pending, reactions = []\<rparr>,
           \<lparr>state = Pending, reactions = [TokenThen c (Suc (Suc (length (promises w))))]\<rparr>,
           \<lparr>state = Pending, reactions = []\<rparr>],
        jobs := jobs w @ [ResolveThenable (length (promises w)) (Suc (Suc (length (promises w))))],
        calls := calls w @ [(token_request w c, Suc (length (promises w)))]\<rparr>)"
  by (simp add: getCSRFToken_def callApi_def new_promise_def register_def resolve_with_def
      upd_client_def client_def token_request_def obj_def nth_append)

lemma getCSRFToken_calls:
  "c < length (clients w) \<Longrightarrow>
   calls (snd (getCSRFToken c w)) = calls w @ [(token_request w c, Suc (length (promises w)))]"
  by (simp add: getCSRFToken_eq)

lemma getCSRFToken_drain_calls:
  "jobs w = [] \<Longrightarrow> c < length (clients w) \<Longrightarrow>
   calls (drain (snd (getCSRFToken c w))) = calls (snd (getCSRFToken c w))"
  by (simp add: getCSRFToken_eq drain_simps run_job_def register_def nth_append)

lemma get_eq_pending:
  assumes "csrfPromise (clients w ! c) < length (promises w)"
    and "state (promises w ! csrfPromise (clients w ! c)) = Pending"
  shows "get c request w =
     (length (promises w),
      w\<lparr>promises := (promises w)[csrfPromise (clients w ! c) :=
            (promises w ! csrfPromise (clients w ! c))
              \<lparr>reactions := reactions (promises w ! csrfPromise (clients w ! c)) @
                 [GetThen c request (Suc (length (promises w)))]\<rparr>] @
          [\<lparr>state = Pending, reactions = []\<rparr>, \<lparr>state = Pending, reactions = []\<rparr>],
        jobs := jobs w @ [ResolveThenable (length (promises w)) (Suc (length (promises w)))]\<rparr>)"
  using assms
  by (simp add: get_def new_promise_def register_def resolve_with_def ensureAuth_def client_def
      nth_append list_update_append)

lemma get_eq_settled:
  assumes "csrfPromise (clients w ! c) < length (promises w)"
    and "state (promises w ! csrfPromise (clients w ! c)) \<noteq> Pending"
  shows "get c request w =
     (length (promises w),
      w\<lparr>promises := promises w @
          [\<lparr>state = Pending, reactions = []\<rparr>, \<lparr>state = Pending, reactions = []\<rparr>],
        jobs := jobs w @
          [React (GetThen c request (Suc (length (promises w))))
             (state (promises w ! csrfPromise (clients w ! c))),
           ResolveThenable (length (promises w)) (Suc (length (promises w)))]\<rparr>)"
  using assms
  by (cases "state (promises w ! csrfPromise (clients w ! c))")
     (simp_all add: get_def new_promise_def register_def resolve_with_def ensureAuth_def client_def
      nth_append)

lemma post_eq_pending:
  assumes "csrfPromise (clients w ! c) < length (promises w)"
    and "state (promises w ! csrfPromise (clients w ! c)) = Pending"
  shows "post c request w =
     (length (promises w),
      w\<lparr>promises := (promises w)[csrfPromise (clients w ! c) :=
            (promises w ! csrfPromise (clients w ! c))
              \<lparr>reactions := reactions (promises w ! csrfPromise (clients w ! c)) @
                 [PostThen c request (Suc (length (promises w)))]\<rparr>] @
          [\<lparr>state = Pending, reactions = []\<rparr>, \<lparr>state = Pending, reactions = []\<rparr>],
        jobs := jobs w @ [ResolveThenable (length (promises w)) (Suc (length (promises w)))]\<rparr>)"
  using assms
  by (simp add: post_def new_promise_def register_def resolve_with_def ensureAuth_def client_def
      nth_append list_update_append)

lemma post_eq_settled:
  assumes "csrfPromise (clients w ! c) < length (promises w)"
    and "state (promises w ! csrfPromise (clients w ! c)) \<noteq> Pending"
  shows "post c request w =
     (length (promises w),
      w\<lparr>promises := promises w @
          [\<lparr>state = Pending, reactions = []\<rparr>, \<lparr>state = Pending, reactions = []\<rparr>],
        jobs := jobs w @
          [React (PostThen c request (Suc (length (promises w))))
             (state (promises w ! csrfPromise (clients w ! c))),
           ResolveThenable (length (promises w)) (Suc (length (promises w)))]\<rparr>)"
  using assms
  by (cases "state (promises w ! csrfPromise (clients w ! c))")
     (simp_all add: post_def new_promise_def register_def resolve_with_def ensureAuth_def client_def
      nth_append)

section \<open>Initialisation\<close>

text \<open>
  Claim C5. While the client is authenticated, \<open>init\<close> without force (the default, or
  an explicit false) returns the promise that the promise field holds and leaves the
  world as it is: no request, no change of state, also when it is called twice.
  \<open>init\<close> with force is \<open>getCSRFToken\<close> whatever the authentication state, and so is
  \<open>reAuthenticate\<close> of a configured registry: the call hands exactly one request to the
  transport, a GET of the token endpoint, and the microtasks that follow hand it none.
\<close>

theorem init_idempotent_force_fetches:
  "(isAuthenticated (client w c) \<longrightarrow>
      init c None w = (csrfPromise (client w c), w)
      \<and> init c (Some False) w = (csrfPromise (client w c), w)
      \<and> init c None (snd (init c None w)) = (csrfPromise (client w c), w)
      \<and> calls (snd (init c None (snd (init c None w)))) = calls w)
   \<and> init c (Some True) w = getCSRFToken c w
   \<and> (c < length (clients w) \<longrightarrow>
        calls (snd (init c (Some True) w)) = calls w @ [(token_request w c, Suc (length (promises w)))])
   \<and> (jobs w = [] \<and> c < length (clients w) \<longrightarrow>
        calls (drain (snd (init c (Some True) w))) = calls (snd (init c (Some True) w)))
   \<and> (singletonClient w = Some c \<longrightarrow> PublicAPI_reAuthenticate w = Inr (getCSRFToken c w))
   \<and> arg_method (token_request w c) = ''GET''
   \<and> arg_url (token_request w c) =
        protocol (client w c) @ ''//'' @ strip_trailing_slash (host (client w c)) @ ''/superset/csrf_token/''"
proof -
  have force: "init c (Some True) w = getCSRFToken c w"
    by (simp add: init_def)
  have idem: "isAuthenticated (client w c) \<Longrightarrow> init c None w = (csrfPromise (client w c), w)"
    "isAuthenticated (client w c) \<Longrightarrow> init c (Some False) w = (csrfPromise (client w c), w)"
    by (simp_all add: init_def)
  have url: "arg_url (token_request w c) =
        protocol (client w c) @ ''//'' @ strip_trailing_slash (host (client w c)) @ ''/superset/csrf_token/''"
    by (simp add: token_request_def getUrl_def strip_trailing_slash_eq)
  show ?thesis
    using idem getCSRFToken_calls [of c w] getCSRFToken_drain_calls [of w c] url
    by (simp add: force PublicAPI_reAuthenticate_def hasInstance_def token_request_def)
qed

theorem init_idempotent_force_fetches_witness:
  "isAuthenticated (client authed_world 0)
   \<and> init 0 None authed_world = (1, authed_world)
   \<and> init 0 (Some False) authed_world = (1, authed_world)
   \<and> calls (snd (init 0 None (snd (init 0 None authed_world)))) = []
   \<and> length (calls (snd (init 0 (Some True) authed_world))) = 1
   \<and> length (calls (drain (snd (init 0 (Some True) authed_world)))) = 1
   \<and> PublicAPI_reAuthenticate authed_world = Inr (getCSRFToken 0 authed_world)"
  using init_idempotent_force_fetches [of authed_world 0]
  by (auto simp add: authed_world_facts)

section \<open>Requests wait for authentication\<close>

lemma pstate_ofD:
  "pstate_of w p = st \<Longrightarrow> st \<noteq> Pending \<Longrightarrow> p < length (promises w) \<and> state (promises w ! p) = st"
  by (auto simp: pstate_of_def split: if_splits)

lemma get_rejected:
  assumes "jobs w = []" and "pstate_of w (ensureAuth c w) = Rejected e"
  shows "outcome (get c request w) = Rejected e" and "calls_after (get c request w) = calls w"
proof -
  from pstate_ofD [OF assms(2)]
  have "csrfPromise (clients w ! c) < length (promises w)"
    and "state (promises w ! csrfPromise (clients w ! c)) = Rejected e"
    by (simp_all add: ensureAuth_def client_def)
  with assms(1) show "outcome (get c request w) = Rejected e"
    and "calls_after (get c request w) = calls w"
    by (simp_all add: outcome_def calls_after_def get_eq_settled drain_simps job_defs nth_append
        pstate_of_def)
qed

lemma post_rejected:
  assumes "jobs w = []" and "pstate_of w (ensureAuth c w) = Rejected e"
  shows "outcome (post c request w) = Rejected e" and "calls_after (post c request w) = calls w"
proof -
  from pstate_ofD [OF assms(2)]
  have "csrfPromise (clients w ! c) < length (promises w)"
    and "state (promises w ! csrfPromise (clients w ! c)) = Rejected e"
    by (simp_all add: ensureAuth_def client_def)
  with assms(1) show "outcome (post c request w) = Rejected e"
    and "calls_after (post c request w) = calls w"
    by (simp_all add: outcome_def calls_after_def post_eq_settled drain_simps job_defs nth_append
        pstate_of_def)
qed

lemma new_client_no_token:
  assumes "cfg_csrfToken config = None"
  shows "pstate_of (snd (new_SupersetClient config w))
           (ensureAuth (fst (new_SupersetClient config w)) (snd (new_SupersetClient config w)))
         = Rejected (no_token_payload (client (snd (new_SupersetClient config w))
                                         (fst (new_SupersetClient config w))))"
    and "jobs (snd (new_SupersetClient config w)) = jobs w"
    and "calls (snd (new_SupersetClient config w)) = calls w"
  by (simp_all add: new_SupersetClient_None [OF assms] ensureAuth_def client_def pstate_of_def
      no_token_payload_def login_url configured_def)

lemma get_after_fetch:
  assumes "jobs w = []" and "c < length (clients w)"
  shows "outcome (get c request (snd (getCSRFToken c w))) = Pending"
    and "calls_after (get c request (snd (getCSRFToken c w))) = calls (snd (getCSRFToken c w))"
    and "outcome (and_then_settles (Suc (length (promises w))) (Rejected e)
           (get c request (snd (getCSRFToken c w)))) = Rejected e"
    and "calls_after (and_then_settles (Suc (length (promises w))) (Rejected e)
           (get c request (snd (getCSRFToken c w)))) = calls (snd (getCSRFToken c w))"
  using assms
  by (simp_all add: outcome_def calls_after_def and_then_settles_def transport_settles_def
      getCSRFToken_eq get_eq_pending drain_simps job_defs nth_append pstate_of_def)

lemma post_after_fetch:
  assumes "jobs w = []" and "c < length (clients w)"
  shows "outcome (post c request (snd (getCSRFToken c w))) = Pending"
    and "calls_after (post c request (snd (getCSRFToken c w))) = calls (snd (getCSRFToken c w))"
    and "outcome (and_then_settles (Suc (length (promises w))) (Rejected e)
           (post c request (snd (getCSRFToken c w)))) = Rejected e"
    and "calls_after (and_then_settles (Suc (length (promises w))) (Rejected e)
           (post c request (snd (getCSRFToken c w)))) = calls (snd (getCSRFToken c w))"
  using assms
  by (simp_all add: outcome_def calls_after_def and_then_settles_def transport_settles_def
      getCSRFToken_eq post_eq_pending drain_simps job_defs nth_append pstate_of_def)

section \<open>Fetching the token\<close>

text \<open>The \<^verbatim>\<open>csrf_token\<close> of a response body: the field of a JSON object, and
  \<^verbatim>\<open>undefined\<close> for every other body.\<close>

fun body_token :: "jsval \<Rightarrow> jsval" where
  "body_token (JObj kvs) = (case map_of kvs ''csrf_token'' of None \<Rightarrow> JUndefined | Some v \<Rightarrow> v)"
| "body_token j = JUndefined"

definition fetch_failed :: jsval where
  "fetch_failed = JObj [(''error'', JStr ''Failed to fetch CSRF token'')]"

lemma defined_value_iff: "defined_value v \<longleftrightarrow> v \<noteq> JNull \<and> v \<noteq> JUndefined"
  by (cases v) simp_all

lemma getCSRFToken_fst [simp]: "fst (getCSRFToken c w) = length (promises w)"
  by (simp add: getCSRFToken_def new_promise_def callApi_def split_beta Let_def)

lemma fetch_drained:
  assumes "jobs w = []" and "c < length (clients w)"
  shows "drain (snd (getCSRFToken c w)) =
      w\<lparr>clients := (clients w)[c := (clients w ! c)
           \<lparr>csrfToken := JUndefined, csrfPromise := Suc (Suc (length (promises w)))\<rparr>],
        promises := promises w @
          [\<lparr>state = Pending, reactions = []\<rparr>,
           \<lparr>state = Pending, reactions = [TokenThen c (Suc (Suc (length (promises w))))]\<rparr>,
           \<lparr>state = Pending, reactions = [Follow (length (promises w))]\<rparr>],
        jobs := [],
        calls := calls w @ [(token_request w c, Suc (length (promises w)))]\<rparr>"
  using assms
  by (simp add: getCSRFToken_eq drain_simps job_defs nth_append list_update_append)


lemma token_callback_object:
  assumes "get_prop response ''json'' = Inr j" and "typeof j = ''object''" and "j \<noteq> JNull"
    and "c < length (clients w)" and "typeof (body_token j) \<noteq> ''string''"
  shows "token_callback c response w =
     (Inr (length (promises w)),
      w\<lparr>clients := (clients w)[c := (clients w ! c)\<lparr>csrfToken := body_token j\<rparr>],
        promises := promises w @
          [\<lparr>state = (if defined_value (body_token j) then Fulfilled (body_token j)
                      else Rejected fetch_failed), reactions = []\<rparr>]\<rparr>)"
proof -
  have p: "get_prop j ''csrf_token'' = Inr (body_token j)"
    using assms(2,3) by (cases j) simp_all
  show ?thesis
    using assms(1,2,4,5)
    by (cases "body_token j")
       (simp_all add: token_callback_def p upd_client_def client_def new_promise_def
          isAuthenticated_def fetch_failed_def)
qed

lemma token_callback_string:
  assumes "get_prop response ''json'' = Inr j" and "body_token j = JStr s"
    and "c < length (clients w)"
  shows "token_callback c response w =
     (Inr (length (promises w)),
      w\<lparr>clients := (clients w)[c := (clients w ! c)
           \<lparr>csrfToken := JStr s, headers := length (objs w)\<rparr>],
        objs := objs w @ [(obj w (headers (clients w ! c)))(''X-CSRFToken'' \<mapsto> s)],
        promises := promises w @ [\<lparr>state = Fulfilled (JStr s), reactions = []\<rparr>]\<rparr>)"
proof -
  from assms(2) obtain kvs where j: "j = JObj kvs"
    by (cases j) simp_all
  with assms(2) have p: "(case map_of kvs ''csrf_token'' of None \<Rightarrow> JUndefined | Some v \<Rightarrow> v) = JStr s"
    by simp
  show ?thesis
    using assms(1,3) j
    by (simp add: token_callback_def p upd_client_def client_def new_promise_def new_object_def
        isAuthenticated_def obj_def)
qed


text \<open>A fetch whose token request the network then settles with \<open>st\<close>; and the world
  a caller finds once the queue has drained.\<close>

definition fetch_settled :: "cid \<Rightarrow> pstate \<Rightarrow> world \<Rightarrow> pid \<times> world" where
  "fetch_settled c st w = and_then_settles (Suc (length (promises w))) st (getCSRFToken c w)"

definition world_after :: "pid \<times> world \<Rightarrow> world" where
  "world_after r = drain (snd r)"

lemmas obs_defs = outcome_def calls_after_def and_then_settles_def transport_settles_def
  fetch_settled_def world_after_def list_update_append



lemma fetch_token_defined:
  assumes "jobs w = []" and "c < length (clients w)"
    and "get_prop response ''json'' = Inr j" and "defined_value (body_token j)"
  shows "outcome (fetch_settled c (Fulfilled response) w) = Fulfilled (body_token j)
    \<and> pstate_of (world_after (fetch_settled c (Fulfilled response) w))
           (csrfPromise (client (world_after (fetch_settled c (Fulfilled response) w)) c))
         = Fulfilled (body_token j)
    \<and> isAuthenticated (client (world_after (fetch_settled c (Fulfilled response) w)) c)
    \<and> csrfToken (client (world_after (fetch_settled c (Fulfilled response) w)) c) = body_token j"
proof (cases "typeof (body_token j) = ''string''")
  case True
  then obtain s where s: "body_token j = JStr s"
    by (cases "body_token j") simp_all
  note tc = token_callback_string [OF assms(3) s]
  show ?thesis
    using assms(1,2)
    by (simp add: obs_defs fetch_drained drain_simps job_defs tc s nth_append
        pstate_of_def client_def isAuthenticated_def)
next
  case False
  from assms(4) obtain kvs where j: "j = JObj kvs"
    by (cases j) simp_all
  have o: "typeof j = ''object''" and n: "j \<noteq> JNull"
    using j by simp_all
  have bt: "body_token j \<noteq> JNull" "body_token j \<noteq> JUndefined"
    using assms(4) by (simp_all add: defined_value_iff)
  note tc = token_callback_object [OF assms(3) o n _ False]
  show ?thesis
    using assms(1,2,4) bt
    by (simp add: obs_defs fetch_drained drain_simps job_defs tc nth_append
        pstate_of_def client_def isAuthenticated_def)
qed

lemma fetch_token_string:
  assumes "jobs w = []" and "c < length (clients w)"
    and "get_prop response ''json'' = Inr j" and "body_token j = JStr s"
  shows "obj (world_after (fetch_settled c (Fulfilled response) w))
           (headers (client (world_after (fetch_settled c (Fulfilled response) w)) c))
         = (obj w (headers (client w c)))(''X-CSRFToken'' \<mapsto> s)"
  using assms(1,2)
  by (simp add: obs_defs fetch_drained drain_simps job_defs
      token_callback_string [OF assms(3,4)] nth_append client_def obj_def)




definition token_response :: jsval where
  "token_response = JObj [(''json'', JObj [(''csrf_token'', JStr ''tok'')])]"


lemma getUrl_csrfPromise_update [simp]:
  "getUrl (this\<lparr>csrfPromise := p\<rparr>) h e u = getUrl this h e u"
  by (rule getUrl_cong) simp_all

lemma getUrl_headers_update [simp]:
  "getUrl (this\<lparr>headers := a\<rparr>) h e u = getUrl this h e u"
  by (rule getUrl_cong) simp_all







section \<open>The invariant of the client\<close>

text \<open>The headers of a client hold its token whenever the token is a string, and its
  references are valid.\<close>

definition client_ok :: "world \<Rightarrow> SupersetClient \<Rightarrow> bool" where
  "client_ok w this =
     ((\<forall>s. csrfToken this = JStr s \<longrightarrow> obj w (headers this) ''X-CSRFToken'' = Some s)
      \<and> csrfPromise this < length (promises w)
      \<and> headers this < length (objs w))"

definition clients_ok :: "world \<Rightarrow> bool" where
  "clients_ok w = (\<forall>this \<in> set (clients w). client_ok w this)"

text \<open>A later world: objects are only added, promises are only added.\<close>

definition extends :: "world \<Rightarrow> world \<Rightarrow> bool" where
  "extends w w' = ((\<exists>xs. objs w' = objs w @ xs) \<and> length (promises w) \<le> length (promises w'))"

lemma extends_refl [simp]: "extends w w"
  by (simp add: extends_def)

lemma extends_trans: "extends w w1 \<Longrightarrow> extends w1 w2 \<Longrightarrow> extends w w2"
  by (auto simp: extends_def)

lemma client_ok_extends: "client_ok w this \<Longrightarrow> extends w w' \<Longrightarrow> client_ok w' this"
  by (auto simp: client_ok_def extends_def obj_def nth_append)

lemma clients_ok_extends:
  "clients_ok w \<Longrightarrow> extends w w' \<Longrightarrow> clients w' = clients w \<Longrightarrow> clients_ok w'"
  by (auto simp: clients_ok_def intro: client_ok_extends)

lemma clients_ok_upd:
  assumes "clients_ok w" and "extends w w'"
    and "clients w' = (clients w)[c := this]"
    and "c < length (clients w) \<Longrightarrow> client_ok w' this"
  shows "clients_ok w'"
proof -
  have "client_ok w' x" if "x \<in> set ((clients w)[c := this])" for x
  proof (cases "c < length (clients w)")
    case True
    from that have "x = this \<or> x \<in> set (clients w)"
      using set_update_subset_insert [of "clients w" c this] by auto
    then show ?thesis
      using assms(1,2,4) True by (auto simp: clients_ok_def intro: client_ok_extends)
  next
    case False
    then have "(clients w)[c := this] = clients w" by (simp add: not_less list_update_beyond)
    with that assms(1,2) show ?thesis
      by (auto simp: clients_ok_def intro: client_ok_extends)
  qed
  then show ?thesis
    by (simp add: clients_ok_def assms(3))
qed

lemma ext_new_promise: "extends w (snd (new_promise st w))"
  by (simp add: extends_def new_promise_def)

lemma ext_settle: "extends w (settle p st w)"
  by (simp add: extends_def settle_def)

lemma ext_register: "extends w (register p r w)"
  by (simp add: extends_def register_def split: pstate.splits)

lemma ext_resolve_with: "extends w (resolve_with a p w)"
  by (simp add: extends_def resolve_with_def)

lemma ext_callApi: "extends w (snd (callApi args w))"
  by (simp add: extends_def callApi_def new_promise_def)

lemma cl_new_promise: "clients (snd (new_promise st w)) = clients w"
  by (simp add: new_promise_def)

lemma cl_settle: "clients (settle p st w) = clients w"
  by (simp add: settle_def)

lemma cl_register: "clients (register p r w) = clients w"
  by (simp add: register_def split: pstate.splits)

lemma cl_resolve_with: "clients (resolve_with a p w) = clients w"
  by (simp add: resolve_with_def)

lemma cl_callApi: "clients (snd (callApi args w)) = clients w"
  by (simp add: callApi_def new_promise_def)

lemmas ext_simps = cl_new_promise cl_settle cl_register cl_resolve_with cl_callApi

lemma ok_settle: "clients_ok w \<Longrightarrow> clients_ok (settle p st w)"
  by (rule clients_ok_extends [OF _ ext_settle cl_settle])

lemma ok_register: "clients_ok w \<Longrightarrow> clients_ok (register p r w)"
  by (rule clients_ok_extends [OF _ ext_register cl_register])

lemma ok_resolve_with: "clients_ok w \<Longrightarrow> clients_ok (resolve_with a p w)"
  by (rule clients_ok_extends [OF _ ext_resolve_with cl_resolve_with])

lemma ok_new_promise: "clients_ok w \<Longrightarrow> clients_ok (snd (new_promise st w))"
  by (rule clients_ok_extends [OF _ ext_new_promise cl_new_promise])

lemma ok_callApi: "clients_ok w \<Longrightarrow> clients_ok (snd (callApi args w))"
  by (rule clients_ok_extends [OF _ ext_callApi cl_callApi])

lemma ok_get: "clients_ok w \<Longrightarrow> clients_ok (snd (get c request w))"
  by (simp add: get_def split_beta Let_def ok_resolve_with ok_register ok_new_promise)

lemma ok_post: "clients_ok w \<Longrightarrow> clients_ok (snd (post c request w))"
  by (simp add: post_def split_beta Let_def ok_resolve_with ok_register ok_new_promise)

lemma obj_upd_client [simp]: "obj (upd_client c f w) = obj w"
  by (rule ext) (simp add: obj_def upd_client_def)

lemma obj_jobs_update [simp]: "obj (w\<lparr>jobs := js\<rparr>) = obj w"
  by (rule ext) (simp add: obj_def)

lemma obj_singleton_update [simp]: "obj (w\<lparr>singletonClient := x\<rparr>) = obj w"
  by (rule ext) (simp add: obj_def)

lemma client_ok_jobs_update [simp]: "client_ok (w\<lparr>jobs := js\<rparr>) = client_ok w"
  by (rule ext) (simp add: client_ok_def)

lemma client_ok_singleton_update [simp]: "client_ok (w\<lparr>singletonClient := x\<rparr>) = client_ok w"
  by (rule ext) (simp add: client_ok_def)

lemma ok_jobs_update [simp]: "clients_ok (w\<lparr>jobs := js\<rparr>) = clients_ok w"
  by (simp add: clients_ok_def)

lemma ok_singleton_update [simp]: "clients_ok (w\<lparr>singletonClient := x\<rparr>) = clients_ok w"
  by (simp add: clients_ok_def)

lemma ok_getCSRFToken: "clients_ok w \<Longrightarrow> clients_ok (snd (getCSRFToken c w))"
proof -
  assume ok: "clients_ok w"
  define w1 where "w1 = snd (new_promise Pending w)"
  define w2 where "w2 = upd_client c (\<lambda>this. this\<lparr>csrfToken := JUndefined\<rparr>) w1"
  define args where "args = token_request w2 c"
  define w3 where "w3 = snd (callApi args w2)"
  define w4 where "w4 = snd (new_promise Pending w3)"
  define w5 where "w5 = register (fst (callApi args w2)) (TokenThen c (fst (new_promise Pending w3))) w4"
  define w6 where "w6 = upd_client c (\<lambda>this. this\<lparr>csrfPromise := fst (new_promise Pending w3)\<rparr>) w5"
  have r: "snd (getCSRFToken c w) = resolve_with (fst (new_promise Pending w)) (csrfPromise (client w6 c)) w6"
    by (simp add: getCSRFToken_def split_beta Let_def w1_def w2_def w3_def w4_def w5_def w6_def
        args_def token_request_def)
  have ok1: "clients_ok w1"
    unfolding w1_def using ok by (rule ok_new_promise)
  have ok2: "clients_ok w2"
  proof (rule clients_ok_upd [OF ok1])
    show "extends w1 w2" by (simp add: w2_def upd_client_def extends_def)
    show "clients w2 = (clients w1)[c := (clients w1 ! c)\<lparr>csrfToken := JUndefined\<rparr>]"
      by (simp add: w2_def upd_client_def)
    assume "c < length (clients w1)"
    then have "client_ok w1 (clients w1 ! c)"
      using ok1 by (simp add: clients_ok_def)
    then show "client_ok w2 ((clients w1 ! c)\<lparr>csrfToken := JUndefined\<rparr>)"
      by (simp add: client_ok_def w2_def) (simp add: upd_client_def)
  qed
  have ok3: "clients_ok w3"
    unfolding w3_def using ok2 by (rule ok_callApi)
  have ok4: "clients_ok w4"
    unfolding w4_def using ok3 by (rule ok_new_promise)
  have ok5: "clients_ok w5"
    unfolding w5_def using ok4 by (rule ok_register)
  have len: "fst (new_promise Pending w3) < length (promises w5)"
    by (simp add: w5_def w4_def new_promise_def register_def split: pstate.splits)
  have ok6: "clients_ok w6"
  proof (rule clients_ok_upd [OF ok5])
    show "extends w5 w6" by (simp add: w6_def upd_client_def extends_def)
    show "clients w6 = (clients w5)[c := (clients w5 ! c)\<lparr>csrfPromise := fst (new_promise Pending w3)\<rparr>]"
      by (simp add: w6_def upd_client_def)
    assume "c < length (clients w5)"
    then have "client_ok w5 (clients w5 ! c)"
      using ok5 by (simp add: clients_ok_def)
    then show "client_ok w6 ((clients w5 ! c)\<lparr>csrfPromise := fst (new_promise Pending w3)\<rparr>)"
      using len by (simp add: client_ok_def w6_def) (simp add: upd_client_def)
  qed
  show ?thesis
    unfolding r using ok6 by (rule ok_resolve_with)
qed

lemma ok_init: "clients_ok w \<Longrightarrow> clients_ok (snd (init c force w))"
  by (simp add: init_def Let_def ok_getCSRFToken)


lemma ok_token_update:
  assumes ok: "clients_ok w"
    and w1: "w1 = upd_client c (\<lambda>this. this\<lparr>csrfToken := JStr s\<rparr>) w"
    and H: "H = (obj w1 (headers (client w1 c)))(''X-CSRFToken'' \<mapsto> s)"
  shows "clients_ok (upd_client c (\<lambda>this. this\<lparr>headers := fst (new_object H w1)\<rparr>)
          (snd (new_object H w1)))"
    (is "clients_ok ?w'")
proof (rule clients_ok_upd [OF ok])
  show "extends w ?w'"
    by (simp add: extends_def upd_client_def new_object_def w1)
  show "clients ?w' = (clients w)[c := (clients w ! c)\<lparr>csrfToken := JStr s, headers := length (objs w)\<rparr>]"
    by (cases "c < length (clients w)")
       (simp_all add: upd_client_def new_object_def w1 list_update_beyond not_less)
  show "client_ok ?w' ((clients w ! c)\<lparr>csrfToken := JStr s, headers := length (objs w)\<rparr>)"
    if "c < length (clients w)"
  proof -
    from that ok have "client_ok w (clients w ! c)"
      by (simp add: clients_ok_def)
    then show ?thesis
      using that
      by (simp add: client_ok_def upd_client_def new_object_def obj_def w1 H client_def)
  qed
qed

lemma ok_token_other:
  assumes ok: "clients_ok w" and ns: "typeof tk \<noteq> ''string''"
  shows "clients_ok (upd_client c (\<lambda>this. this\<lparr>csrfToken := tk\<rparr>) w)"
proof (rule clients_ok_upd [OF ok])
  show "extends w (upd_client c (\<lambda>this. this\<lparr>csrfToken := tk\<rparr>) w)"
    by (simp add: extends_def upd_client_def)
  show "clients (upd_client c (\<lambda>this. this\<lparr>csrfToken := tk\<rparr>) w)
        = (clients w)[c := (clients w ! c)\<lparr>csrfToken := tk\<rparr>]"
    by (simp add: upd_client_def)
  show "client_ok (upd_client c (\<lambda>this. this\<lparr>csrfToken := tk\<rparr>) w)
          ((clients w ! c)\<lparr>csrfToken := tk\<rparr>)" if "c < length (clients w)"
  proof -
    from that ok have "client_ok w (clients w ! c)"
      by (simp add: clients_ok_def)
    then show ?thesis
      using ns by (auto simp add: client_ok_def upd_client_def)
  qed
qed

lemma ok_token_callback:
  assumes ok: "clients_ok w"
  shows "clients_ok (snd (token_callback c response w))"
proof (cases "get_prop response ''json''")
  case (Inl e)
  then show ?thesis using ok by (simp add: token_callback_def)
next
  case (Inr j)
  note j = Inr
  show ?thesis
  proof (cases "typeof j = ''object''")
    case False
    then show ?thesis
      using ok j by (simp add: token_callback_def split_beta ok_new_promise)
  next
    case True
    note o = True
    show ?thesis
    proof (cases "get_prop j ''csrf_token''")
      case (Inl e)
      then show ?thesis using ok j o by (simp add: token_callback_def)
    next
      case (Inr tk)
      show ?thesis
      proof (cases "typeof tk = ''string''")
        case True
        then obtain s where s: "tk = JStr s" by (cases tk) simp_all
        show ?thesis
          using ok_token_update [OF ok refl refl, of c s] j o Inr s
          by (simp add: token_callback_def split_beta ok_new_promise Let_def)
      next
        case False
        have "clients_ok (upd_client c (\<lambda>this. this\<lparr>csrfToken := tk\<rparr>) w)"
          using ok False by (rule ok_token_other)
        then show ?thesis
          using j o Inr False
          by (cases tk) (simp_all add: token_callback_def split_beta ok_new_promise)
      qed
    qed
  qed
qed

lemma ok_run_job: "clients_ok w \<Longrightarrow> clients_ok (run_job j w)"
proof -
  assume ok: "clients_ok w"
  show ?thesis
  proof (cases j)
    case (ResolveThenable a p)
    then show ?thesis using ok by (simp add: run_job_def ok_register)
  next
    case (React r st)
    show ?thesis
    proof (cases r)
      case (Follow a)
      then show ?thesis using ok React by (simp add: run_job_def ok_settle)
    next
      case (TokenThen c q)
      then show ?thesis
        using ok React ok_token_callback [OF ok, of c]
        by (cases st)
           (auto simp add: run_job_def ok_settle ok_resolve_with split: prod.splits sum.splits
             dest: sndI)
    next
      case (GetThen c request q)
      then show ?thesis
        using ok React
        by (cases st)
           (simp_all add: run_job_def ok_settle ok_resolve_with get_callback_def split_beta
              ok_callApi)
    next
      case (PostThen c request q)
      then show ?thesis
        using ok React
        by (cases st)
           (simp_all add: run_job_def ok_settle ok_resolve_with post_callback_def split_beta
              ok_callApi)
    qed
  qed
qed

lemma ok_drain: "clients_ok w \<Longrightarrow> clients_ok (drain w)"
proof (induction w rule: drain.induct)
  case (1 w)
  show ?case
  proof (cases "jobs w")
    case Nil
    then show ?thesis using 1 by (simp add: drain_Nil)
  next
    case (Cons j js)
    have "clients_ok (run_job j (w\<lparr>jobs := js\<rparr>))"
      using "1.prems" by (simp add: ok_run_job)
    then show ?thesis
      using "1.IH" [OF Cons] Cons by (simp add: drain_Cons)
  qed
qed

lemma clients_ok_snoc:
  assumes "clients_ok w" and "extends w w'" and "clients w' = clients w @ [this]"
    and "client_ok w' this"
  shows "clients_ok w'"
  using assms by (auto simp: clients_ok_def intro: client_ok_extends)

lemma ok_new_SupersetClient:
  assumes ok: "clients_ok w"
  shows "clients_ok (snd (new_SupersetClient config w))"
proof (cases "cfg_csrfToken config")
  case None
  note eq = new_SupersetClient_None [OF None, of w]
  show ?thesis
  proof (rule clients_ok_snoc [OF ok])
    show "extends w (snd (new_SupersetClient config w))"
      by (simp add: eq extends_def)
    show "clients (snd (new_SupersetClient config w)) = clients w @
        [(configured config)\<lparr>csrfPromise := length (promises w), headers := length (objs w)\<rparr>]"
      by (simp add: eq)
    show "client_ok (snd (new_SupersetClient config w))
        ((configured config)\<lparr>csrfPromise := length (promises w), headers := length (objs w)\<rparr>)"
      by (simp add: eq client_ok_def configured_def None)
  qed
next
  case (Some t)
  note eq = new_SupersetClient_Some [OF Some, of w]
  show ?thesis
  proof (rule clients_ok_snoc [OF ok])
    show "extends w (snd (new_SupersetClient config w))"
      by (simp add: eq extends_def)
    show "clients (snd (new_SupersetClient config w)) = clients w @
        [(configured config)\<lparr>csrfPromise := Suc (length (promises w)),
           headers := Suc (length (objs w))\<rparr>]"
      by (simp add: eq)
    show "client_ok (snd (new_SupersetClient config w))
        ((configured config)\<lparr>csrfPromise := Suc (length (promises w)),
           headers := Suc (length (objs w))\<rparr>)"
      by (simp add: eq client_ok_def configured_def Some obj_def nth_append)
  qed
qed

text \<open>The token and the headers after the callback of \<open>getCSRFToken\<close> has run, in every
  world: the \<^verbatim>\<open>csrf_token\<close> of a body that is an object becomes the token, whatever its
  type, and the headers are replaced only when it is a string.\<close>

lemma token_callback_token:
  assumes c: "c < length (clients w)" and j: "get_prop response ''json'' = Inr j" and n: "j \<noteq> JNull"
  shows "csrfToken (client (snd (token_callback c response w)) c)
         = (if typeof j = ''object'' then body_token j else csrfToken (client w c))"
    and "body_token j = JStr s \<longrightarrow>
         obj (snd (token_callback c response w)) (headers (client (snd (token_callback c response w)) c))
         = (obj w (headers (client w c)))(''X-CSRFToken'' \<mapsto> s)"
    and "(\<forall>s. body_token j \<noteq> JStr s) \<longrightarrow>
         obj (snd (token_callback c response w)) (headers (client (snd (token_callback c response w)) c))
         = obj w (headers (client w c))"
proof -
  consider "typeof j \<noteq> ''object''"
    | "typeof j = ''object''" "typeof (body_token j) \<noteq> ''string''"
    | s' where "body_token j = JStr s'"
    by (cases "body_token j") auto
  then have "csrfToken (client (snd (token_callback c response w)) c)
         = (if typeof j = ''object'' then body_token j else csrfToken (client w c))
    \<and> (body_token j = JStr s \<longrightarrow>
         obj (snd (token_callback c response w)) (headers (client (snd (token_callback c response w)) c))
         = (obj w (headers (client w c)))(''X-CSRFToken'' \<mapsto> s))
    \<and> ((\<forall>s. body_token j \<noteq> JStr s) \<longrightarrow>
         obj (snd (token_callback c response w)) (headers (client (snd (token_callback c response w)) c))
         = obj w (headers (client w c)))"
  proof cases
    case 1
    then have b: "body_token j \<noteq> JStr s" for s by (cases j) auto
    show ?thesis
      using 1 j b
      by (simp add: token_callback_def new_promise_def client_def obj_def split_beta)
  next
    case 2
    then have b: "body_token j \<noteq> JStr s" for s by auto
    show ?thesis
      using c 2 b
      by (simp add: token_callback_object [OF j 2(1) n c 2(2)] client_def obj_def)
  next
    case 3
    then have o: "typeof j = ''object''" by (cases j) auto
    show ?thesis
      using c 3 o
      by (simp add: token_callback_string [OF j 3 c] client_def obj_def)
  qed
  then show "csrfToken (client (snd (token_callback c response w)) c)
         = (if typeof j = ''object'' then body_token j else csrfToken (client w c))"
    and "body_token j = JStr s \<longrightarrow>
         obj (snd (token_callback c response w)) (headers (client (snd (token_callback c response w)) c))
         = (obj w (headers (client w c)))(''X-CSRFToken'' \<mapsto> s)"
    and "(\<forall>s. body_token j \<noteq> JStr s) \<longrightarrow>
         obj (snd (token_callback c response w)) (headers (client (snd (token_callback c response w)) c))
         = obj w (headers (client w c))"
    by simp_all
qed

text \<open>A fetch answered with a token that is not a string leaves the headers of the client
  as they were.\<close>

lemma fetch_token_not_string:
  assumes "jobs w = []" and "c < length (clients w)"
    and "get_prop response ''json'' = Inr j" and "typeof j = ''object''" and "j \<noteq> JNull"
    and "typeof (body_token j) \<noteq> ''string''"
  shows "obj (world_after (fetch_settled c (Fulfilled response) w))
           (headers (client (world_after (fetch_settled c (Fulfilled response) w)) c))
         = obj w (headers (client w c))"
    and "csrfToken (client (world_after (fetch_settled c (Fulfilled response) w)) c) = body_token j"
  using assms(1,2)
  by (simp_all add: obs_defs fetch_drained drain_simps job_defs
      token_callback_object [OF assms(3,4,5) _ assms(6)] nth_append client_def obj_def)

definition number_response :: jsval where
  "number_response = JObj [(''json'', JObj [(''csrf_token'', JNum 42)])]"

text \<open>
  Claim C7 says that the \<^verbatim>\<open>X-CSRFToken\<close> entry of the headers matches the current token
  whenever a token is known. The callback of \<open>getCSRFToken\<close> stores whatever \<^verbatim>\<open>csrf_token\<close>
  the body of the response holds, and sets the header only when it is a string. On the
  client configured with the token \<^verbatim>\<open>abc\<close>, a fetch answered with \<^verbatim>\<open>{csrf_token: 42}\<close>
  leaves the client authenticated with the token \<^verbatim>\<open>42\<close>, while its header still is
  \<^verbatim>\<open>abc\<close>.
\<close>

theorem stale_header_counterexample:
  "isAuthenticated (client (world_after (fetch_settled 0 (Fulfilled number_response) authed_world)) 0)
   \<and> csrfToken (client (world_after (fetch_settled 0 (Fulfilled number_response) authed_world)) 0)
       = JNum 42
   \<and> obj (world_after (fetch_settled 0 (Fulfilled number_response) authed_world))
         (headers (client (world_after (fetch_settled 0 (Fulfilled number_response) authed_world)) 0))
         ''X-CSRFToken'' = Some ''abc''
   \<and> obj authed_world (headers (client authed_world 0)) ''X-CSRFToken'' = Some ''abc''"
proof -
  have r: "get_prop number_response ''json'' = Inr (JObj [(''csrf_token'', JNum 42)])"
    "typeof (JObj [(''csrf_token'', JNum 42)]) = ''object''"
    "JObj [(''csrf_token'', JNum 42)] \<noteq> JNull"
    "body_token (JObj [(''csrf_token'', JNum 42)]) = JNum 42"
    by (simp_all add: number_response_def)
  have h: "obj authed_world (headers (client authed_world 0)) ''X-CSRFToken'' = Some ''abc''"
    by (simp add: authed_world_eq client_def obj_def)
  have v: "jobs authed_world = []" "0 < length (clients authed_world)"
    by (simp_all add: authed_world_facts)
  from fetch_token_not_string [OF v r(1,2,3)] h
  show ?thesis
    by (simp add: r(4) isAuthenticated_def)
qed

text \<open>
  Claim C7, amended. The invariant \<open>clients_ok\<close>: for every client, whenever its token field
  holds a string, the \<^verbatim>\<open>X-CSRFToken\<close> entry of its headers is that string; and its promise
  field and its headers field refer to a promise and an object that exist. A token that
  is defined but not a string, which only a response of the server can bring, is stored
  by the callback without touching the headers. The invariant holds at the start and is
  preserved by construction, \<open>init\<close>, \<open>getCSRFToken\<close>, \<open>get\<close> and \<open>post\<close>, by every
  microtask they leave behind (the callbacks included), by every answer of the network,
  and by \<open>configure\<close> and \<open>reset\<close>.
\<close>

theorem headers_and_promise_invariant:
  "clients_ok init_world
   \<and> (clients_ok w \<longrightarrow>
        clients_ok (snd (new_SupersetClient config w))
        \<and> clients_ok (snd (init c force w))
        \<and> clients_ok (snd (getCSRFToken c w))
        \<and> clients_ok (snd (get c request w))
        \<and> clients_ok (snd (post c request w))
        \<and> clients_ok (run_job j w)
        \<and> clients_ok (drain w)
        \<and> clients_ok (transport_settles t st w)
        \<and> clients_ok (snd (configure config w))
        \<and> clients_ok (reset w))
   \<and> (c < length (clients w) \<and> get_prop response ''json'' = Inr body \<and> body \<noteq> JNull \<longrightarrow>
        csrfToken (client (snd (token_callback c response w)) c)
          = (if typeof body = ''object'' then body_token body else csrfToken (client w c))
        \<and> (typeof (body_token body) \<noteq> ''string'' \<longrightarrow>
             obj (snd (token_callback c response w))
               (headers (client (snd (token_callback c response w)) c))
             = obj w (headers (client w c))))"
proof -
  have 1: "clients_ok init_world"
    by (simp add: clients_ok_def init_world_def)
  have 2: "clients_ok w \<longrightarrow>
        clients_ok (snd (new_SupersetClient config w))
        \<and> clients_ok (snd (init c force w))
        \<and> clients_ok (snd (getCSRFToken c w))
        \<and> clients_ok (snd (get c request w))
        \<and> clients_ok (snd (post c request w))
        \<and> clients_ok (run_job j w)
        \<and> clients_ok (drain w)
        \<and> clients_ok (transport_settles t st w)
        \<and> clients_ok (snd (configure config w))
        \<and> clients_ok (reset w)"
    by (simp add: ok_new_SupersetClient ok_init ok_getCSRFToken ok_get ok_post ok_run_job ok_drain
        transport_settles_def ok_settle configure_def split_beta reset_def)
  have 3: "c < length (clients w) \<and> get_prop response ''json'' = Inr body \<and> body \<noteq> JNull \<longrightarrow>
        csrfToken (client (snd (token_callback c response w)) c)
          = (if typeof body = ''object'' then body_token body else csrfToken (client w c))
        \<and> (typeof (body_token body) \<noteq> ''string'' \<longrightarrow>
             obj (snd (token_callback c response w))
               (headers (client (snd (token_callback c response w)) c))
             = obj w (headers (client w c)))"
  proof (intro impI conjI)
    assume h: "c < length (clients w) \<and> get_prop response ''json'' = Inr body \<and> body \<noteq> JNull"
    then have v: "c < length (clients w)" and g: "get_prop response ''json'' = Inr body"
      and n: "body \<noteq> JNull" by simp_all
    show "csrfToken (client (snd (token_callback c response w)) c)
          = (if typeof body = ''object'' then body_token body else csrfToken (client w c))"
      by (rule token_callback_token(1) [OF v g n])
    assume "typeof (body_token body) \<noteq> ''string''"
    then have "\<forall>s. body_token body \<noteq> JStr s" by auto
    with token_callback_token(3) [OF v g n]
    show "obj (snd (token_callback c response w))
               (headers (client (snd (token_callback c response w)) c))
             = obj w (headers (client w c))"
      by blast
  qed
  show ?thesis
    by (intro conjI 1 2 3)
qed

theorem headers_and_promise_invariant_witness:
  "clients_ok authed_world
   \<and> csrfToken (client authed_world 0) = JStr ''abc''
   \<and> obj authed_world (headers (client authed_world 0)) ''X-CSRFToken'' = Some ''abc''
   \<and> clients_ok (world_after (fetch_settled 0 (Fulfilled token_response) authed_world))
   \<and> csrfToken (client (world_after (fetch_settled 0 (Fulfilled token_response) authed_world)) 0)
       = JStr ''tok''
   \<and> obj (world_after (fetch_settled 0 (Fulfilled token_response) authed_world))
         (headers (client (world_after (fetch_settled 0 (Fulfilled token_response) authed_world)) 0))
         ''X-CSRFToken'' = Some ''tok''
   \<and> csrfToken (client (snd (token_callback 0 number_response authed_world)) 0) = JNum 42
   \<and> obj (snd (token_callback 0 number_response authed_world))
         (headers (client (snd (token_callback 0 number_response authed_world)) 0))
         ''X-CSRFToken'' = Some ''abc''"
proof -
  have a: "clients_ok authed_world"
    using headers_and_promise_invariant [of init_world token_config]
    by (simp add: authed_world_def)
  have b: "clients_ok (world_after (fetch_settled 0 (Fulfilled token_response) authed_world))"
    using a headers_and_promise_invariant [of authed_world _ 0]
      headers_and_promise_invariant [of "snd (getCSRFToken 0 authed_world)"]
      headers_and_promise_invariant
        [of "drain (snd (getCSRFToken 0 authed_world))" _ _ _ _ _ "Suc (length (promises authed_world))"
           "Fulfilled token_response"]
      headers_and_promise_invariant
        [of "transport_settles (Suc (length (promises authed_world))) (Fulfilled token_response)
               (drain (snd (getCSRFToken 0 authed_world)))"]
    by (simp add: world_after_def fetch_settled_def and_then_settles_def)
  have r: "get_prop token_response ''json'' = Inr (JObj [(''csrf_token'', JStr ''tok'')])"
    "body_token (JObj [(''csrf_token'', JStr ''tok'')]) = JStr ''tok''"
    by (simp_all add: token_response_def)
  have k: "csrfToken (client (snd (token_callback 0 number_response authed_world)) 0) = JNum 42
   \<and> obj (snd (token_callback 0 number_response authed_world))
         (headers (client (snd (token_callback 0 number_response authed_world)) 0))
       = obj authed_world (headers (client authed_world 0))"
    using headers_and_promise_invariant [where w = authed_world and c = 0
        and response = number_response and body = "JObj [(''csrf_token'', JNum 42)]"]
    by (simp add: authed_world_facts number_response_def)
  have h: "obj authed_world (headers (client authed_world 0)) ''X-CSRFToken'' = Some ''abc''"
    by (simp add: authed_world_eq client_def obj_def)
  have m: "clients_ok authed_world
   \<and> csrfToken (client authed_world 0) = JStr ''abc''
   \<and> obj authed_world (headers (client authed_world 0)) ''X-CSRFToken'' = Some ''abc''
   \<and> clients_ok (world_after (fetch_settled 0 (Fulfilled token_response) authed_world))
   \<and> csrfToken (client (world_after (fetch_settled 0 (Fulfilled token_response) authed_world)) 0)
       = JStr ''tok''
   \<and> obj (world_after (fetch_settled 0 (Fulfilled token_response) authed_world))
         (headers (client (world_after (fetch_settled 0 (Fulfilled token_response) authed_world)) 0))
         ''X-CSRFToken'' = Some ''tok''"
    using a b fetch_token_defined [OF _ _ r(1), of authed_world 0]
      fetch_token_string [OF _ _ r, of authed_world 0]
    by (simp add: authed_world_facts r) (simp add: authed_world_eq client_def obj_def)
  show ?thesis
    using m k h by simp
qed

section \<open>A request and the promise it waits for\<close>

text \<open>The promise that a reaction settles, and the promise that a job settles or
  subscribes.\<close>

fun rtarget :: "reaction \<Rightarrow> pid" where
  "rtarget (TokenThen c q) = q"
| "rtarget (GetThen c request q) = q"
| "rtarget (PostThen c request q) = q"
| "rtarget (Follow a) = a"

fun jtarget :: "job \<Rightarrow> pid" where
  "jtarget (React r st) = rtarget r"
| "jtarget (ResolveThenable a p) = a"

definition live :: "world \<Rightarrow> pid \<Rightarrow> bool" where
  "live w x = (x < length (promises w) \<and> state (promises w ! x) = Pending)"

lemma live_pstate: "live w x \<Longrightarrow> pstate_of w x = Pending"
  by (simp add: live_def pstate_of_def)

lemma not_live_pstate: "x < length (promises w) \<Longrightarrow> \<not> live w x \<Longrightarrow> pstate_of w x \<noteq> Pending"
  by (simp add: live_def pstate_of_def)

lemma settled_valid: "pstate_of w x \<noteq> Pending \<Longrightarrow> x < length (promises w) \<and> \<not> live w x"
  by (auto simp: live_def pstate_of_def split: if_splits)

text \<open>What each primitive does to the observable parts of the world.\<close>

lemma settle_obs:
  "length (promises (settle x st w)) = length (promises w)"
  "pstate_of (settle x st w) y = (if y = x \<and> live w x \<and> st \<noteq> Pending then st else pstate_of w y)"
  "reactions_of (settle x st w) y = (if y = x \<and> live w x \<and> st \<noteq> Pending then [] else reactions_of w y)"
  "jobs (settle x st w) = jobs w @ (if live w x \<and> st \<noteq> Pending then map (\<lambda>r. React r st) (reactions_of w x) else [])"
  "calls (settle x st w) = calls w"
  "live (settle x st w) y = (live w y \<and> (y = x \<longrightarrow> st = Pending))"
  by (auto simp: settle_def pstate_of_def reactions_of_def live_def nth_list_update)

lemma register_obs:
  "length (promises (register x r w)) = length (promises w)"
  "pstate_of (register x r w) y = pstate_of w y"
  "reactions_of (register x r w) y = (if y = x \<and> live w x then reactions_of w x @ [r] else reactions_of w y)"
  "jobs (register x r w) = jobs w @ (if x < length (promises w) \<and> \<not> live w x then [React r (pstate_of w x)] else [])"
  "calls (register x r w) = calls w"
  "live (register x r w) y = live w y"
  by (auto simp: register_def pstate_of_def reactions_of_def live_def nth_list_update
      split: pstate.splits)

lemma resolve_with_obs:
  "length (promises (resolve_with a p w)) = length (promises w)"
  "pstate_of (resolve_with a p w) y = pstate_of w y"
  "reactions_of (resolve_with a p w) y = reactions_of w y"
  "jobs (resolve_with a p w) = jobs w @ [ResolveThenable a p]"
  "calls (resolve_with a p w) = calls w"
  "live (resolve_with a p w) y = live w y"
  by (auto simp: resolve_with_def pstate_of_def reactions_of_def live_def)

lemma new_promise_obs:
  "fst (new_promise st w) = length (promises w)"
  "length (promises (snd (new_promise st w))) = Suc (length (promises w))"
  "pstate_of (snd (new_promise st w)) y = (if y = length (promises w) then st else pstate_of w y)"
  "reactions_of (snd (new_promise st w)) y = reactions_of w y"
  "jobs (snd (new_promise st w)) = jobs w"
  "calls (snd (new_promise st w)) = calls w"
  "live (snd (new_promise st w)) y = (if y = length (promises w) then st = Pending else live w y)"
  by (auto simp: new_promise_def pstate_of_def reactions_of_def live_def nth_append)

lemma callApi_obs:
  "fst (callApi args w) = length (promises w)"
  "length (promises (snd (callApi args w))) = Suc (length (promises w))"
  "pstate_of (snd (callApi args w)) y = pstate_of w y"
  "reactions_of (snd (callApi args w)) y = reactions_of w y"
  "jobs (snd (callApi args w)) = jobs w"
  "calls (snd (callApi args w)) = calls w @ [(args, length (promises w))]"
  "live (snd (callApi args w)) y = (y = length (promises w) \<or> live w y)"
  by (auto simp: callApi_def new_promise_def pstate_of_def reactions_of_def live_def nth_append)

lemma upd_client_obs:
  "promises (upd_client c f w) = promises w"
  "pstate_of (upd_client c f w) y = pstate_of w y"
  "reactions_of (upd_client c f w) y = reactions_of w y"
  "jobs (upd_client c f w) = jobs w"
  "calls (upd_client c f w) = calls w"
  "live (upd_client c f w) y = live w y"
  by (auto simp: upd_client_def pstate_of_def reactions_of_def live_def)

lemma new_object_obs:
  "promises (snd (new_object h w)) = promises w"
  "pstate_of (snd (new_object h w)) y = pstate_of w y"
  "reactions_of (snd (new_object h w)) y = reactions_of w y"
  "jobs (snd (new_object h w)) = jobs w"
  "calls (snd (new_object h w)) = calls w"
  "live (snd (new_object h w)) y = live w y"
  by (auto simp: new_object_def pstate_of_def reactions_of_def live_def)

lemma jobs_update_obs:
  "promises (w\<lparr>jobs := js\<rparr>) = promises w"
  "pstate_of (w\<lparr>jobs := js\<rparr>) y = pstate_of w y"
  "reactions_of (w\<lparr>jobs := js\<rparr>) y = reactions_of w y"
  "live (w\<lparr>jobs := js\<rparr>) y = live w y"
  by (auto simp: pstate_of_def reactions_of_def live_def)

text \<open>
  A request subscribed the reaction \<open>R\<close> to the promise \<open>p\<close>; \<open>q\<close> is the promise that
  \<^verbatim>\<open>then\<close> returned and \<open>a\<close> the promise of the async function, which was resolved with
  \<open>q\<close>. While \<open>p\<close> is not fulfilled the three are linked: only \<open>R\<close>, at \<open>p\<close>, and the
  job that passes a rejection of \<open>p\<close> on refer to \<open>q\<close>; only the subscription of \<open>a\<close> to
  \<open>q\<close> refers to \<open>a\<close>; the transport holds neither; \<open>q\<close> and \<open>a\<close> are pending or
  rejected like \<open>p\<close>; and what is left to do to pass a rejection on is registered or
  queued.
\<close>

definition waits :: "pid \<Rightarrow> pid \<Rightarrow> pid \<Rightarrow> reaction \<Rightarrow> world \<Rightarrow> bool" where
  "waits p a q R w =
     (p \<noteq> q \<and> p \<noteq> a \<and> a \<noteq> q \<and> rtarget R = q
      \<and> p < length (promises w) \<and> a < length (promises w) \<and> q < length (promises w)
      \<and> (\<forall>t \<in> snd ` set (calls w). t \<noteq> a \<and> t \<noteq> q)
      \<and> (\<forall>j \<in> set (jobs w). jtarget j = q \<longrightarrow>
            (\<exists>e. j = React R (Rejected e) \<and> pstate_of w p = Rejected e))
      \<and> (\<forall>x. \<forall>r \<in> set (reactions_of w x). rtarget r = q \<longrightarrow> x = p \<and> r = R)
      \<and> (\<forall>j \<in> set (jobs w). jtarget j = a \<longrightarrow>
            j = ResolveThenable a q
            \<or> (\<exists>e. j = React (Follow a) (Rejected e) \<and> pstate_of w q = Rejected e))
      \<and> (\<forall>x. \<forall>r \<in> set (reactions_of w x). rtarget r = a \<longrightarrow> x = q \<and> r = Follow a)
      \<and> (pstate_of w q = Pending \<or> (\<exists>e. pstate_of w q = Rejected e \<and> pstate_of w p = Rejected e))
      \<and> (pstate_of w a = Pending \<or> (\<exists>e. pstate_of w a = Rejected e \<and> pstate_of w q = Rejected e))
      \<and> (pstate_of w q \<noteq> Pending \<longrightarrow> Follow a \<notin> set (reactions_of w q))
      \<and> (pstate_of w p = Pending \<longrightarrow> R \<in> set (reactions_of w p))
      \<and> (\<forall>e. pstate_of w p = Rejected e \<longrightarrow>
            pstate_of w q = Rejected e \<or> React R (Rejected e) \<in> set (jobs w))
      \<and> (pstate_of w a \<noteq> Pending \<or> ResolveThenable a q \<in> set (jobs w)
          \<or> Follow a \<in> set (reactions_of w q)
          \<or> (\<exists>e. React (Follow a) (Rejected e) \<in> set (jobs w))))"

lemma waits_frame:
  assumes w: "waits p a q R w"
    and len: "length (promises w) \<le> length (promises w')"
    and st: "pstate_of w' p = pstate_of w p" "pstate_of w' q = pstate_of w q"
      "pstate_of w' a = pstate_of w a"
    and r_in: "\<And>x r. r \<in> set (reactions_of w' x) \<Longrightarrow> rtarget r = a \<or> rtarget r = q \<Longrightarrow>
        r \<in> set (reactions_of w x)"
    and r_out: "\<And>x r. r \<in> set (reactions_of w x) \<Longrightarrow> rtarget r = a \<or> rtarget r = q \<Longrightarrow>
        r \<in> set (reactions_of w' x)"
    and j_in: "\<And>j. j \<in> set (jobs w') \<Longrightarrow> jtarget j = a \<or> jtarget j = q \<Longrightarrow> j \<in> set (jobs w)"
    and j_out: "\<And>j. j \<in> set (jobs w) \<Longrightarrow> jtarget j = a \<or> jtarget j = q \<Longrightarrow> j \<in> set (jobs w')"
    and c_in: "\<And>t. t \<in> snd ` set (calls w') \<Longrightarrow> t = a \<or> t = q \<Longrightarrow> t \<in> snd ` set (calls w)"
  shows "waits p a q R w'"
proof -
  from w have d: "p \<noteq> q" "p \<noteq> a" "a \<noteq> q" "rtarget R = q"
    and b: "p < length (promises w)" "a < length (promises w)" "q < length (promises w)"
    and c: "\<forall>t \<in> snd ` set (calls w). t \<noteq> a \<and> t \<noteq> q"
    and jq: "\<forall>j \<in> set (jobs w). jtarget j = q \<longrightarrow>
            (\<exists>e. j = React R (Rejected e) \<and> pstate_of w p = Rejected e)"
    and rq: "\<forall>x. \<forall>r \<in> set (reactions_of w x). rtarget r = q \<longrightarrow> x = p \<and> r = R"
    and ja: "\<forall>j \<in> set (jobs w). jtarget j = a \<longrightarrow>
            j = ResolveThenable a q
            \<or> (\<exists>e. j = React (Follow a) (Rejected e) \<and> pstate_of w q = Rejected e)"
    and ra: "\<forall>x. \<forall>r \<in> set (reactions_of w x). rtarget r = a \<longrightarrow> x = q \<and> r = Follow a"
    and sq: "pstate_of w q = Pending \<or> (\<exists>e. pstate_of w q = Rejected e \<and> pstate_of w p = Rejected e)"
    and sa: "pstate_of w a = Pending \<or> (\<exists>e. pstate_of w a = Rejected e \<and> pstate_of w q = Rejected e)"
    and eq: "pstate_of w q \<noteq> Pending \<longrightarrow> Follow a \<notin> set (reactions_of w q)"
    and lp: "pstate_of w p = Pending \<longrightarrow> R \<in> set (reactions_of w p)"
    and lq: "\<forall>e. pstate_of w p = Rejected e \<longrightarrow>
            pstate_of w q = Rejected e \<or> React R (Rejected e) \<in> set (jobs w)"
    and la: "pstate_of w a \<noteq> Pending \<or> ResolveThenable a q \<in> set (jobs w)
          \<or> Follow a \<in> set (reactions_of w q)
          \<or> (\<exists>e. React (Follow a) (Rejected e) \<in> set (jobs w))"
    by (simp_all add: waits_def)
  have c': "\<forall>t \<in> snd ` set (calls w'). t \<noteq> a \<and> t \<noteq> q"
    using c c_in by blast
  have jq': "\<forall>j \<in> set (jobs w'). jtarget j = q \<longrightarrow>
            (\<exists>e. j = React R (Rejected e) \<and> pstate_of w' p = Rejected e)"
    using jq j_in st(1) by fastforce
  have rq': "\<forall>x. \<forall>r \<in> set (reactions_of w' x). rtarget r = q \<longrightarrow> x = p \<and> r = R"
    using rq r_in by blast
  have ja': "\<forall>j \<in> set (jobs w'). jtarget j = a \<longrightarrow>
            j = ResolveThenable a q
            \<or> (\<exists>e. j = React (Follow a) (Rejected e) \<and> pstate_of w' q = Rejected e)"
    using ja j_in st(2) by fastforce
  have ra': "\<forall>x. \<forall>r \<in> set (reactions_of w' x). rtarget r = a \<longrightarrow> x = q \<and> r = Follow a"
    using ra r_in by blast
  have eq': "pstate_of w' q \<noteq> Pending \<longrightarrow> Follow a \<notin> set (reactions_of w' q)"
    using eq r_in [of "Follow a" q] st by auto
  have lp': "pstate_of w' p = Pending \<longrightarrow> R \<in> set (reactions_of w' p)"
    using lp r_out [of R p] d st by auto
  have lq': "\<forall>e. pstate_of w' p = Rejected e \<longrightarrow>
            pstate_of w' q = Rejected e \<or> React R (Rejected e) \<in> set (jobs w')"
  proof (intro allI impI)
    fix e assume "pstate_of w' p = Rejected e"
    then have "pstate_of w p = Rejected e" using st(1) by simp
    with lq have "pstate_of w q = Rejected e \<or> React R (Rejected e) \<in> set (jobs w)" by blast
    then show "pstate_of w' q = Rejected e \<or> React R (Rejected e) \<in> set (jobs w')"
      using j_out [of "React R (Rejected e)"] d st by auto
  qed
  have la': "pstate_of w' a \<noteq> Pending \<or> ResolveThenable a q \<in> set (jobs w')
          \<or> Follow a \<in> set (reactions_of w' q)
          \<or> (\<exists>e. React (Follow a) (Rejected e) \<in> set (jobs w'))"
  proof -
    consider "pstate_of w a \<noteq> Pending" | "ResolveThenable a q \<in> set (jobs w)"
      | "Follow a \<in> set (reactions_of w q)" | e where "React (Follow a) (Rejected e) \<in> set (jobs w)"
      using la by blast
    then show ?thesis
    proof cases
      case 1 then show ?thesis using st by simp
    next
      case 2 then show ?thesis using j_out [of "ResolveThenable a q"] by simp
    next
      case 3 then show ?thesis using r_out [of "Follow a" q] by simp
    next
      case 4 then show ?thesis using j_out [of "React (Follow a) (Rejected e)"] by auto
    qed
  qed
  show ?thesis
    unfolding waits_def
    using d b len c' jq' rq' ja' ra' sq sa eq' lp' lq' la' st
    by (intro conjI) simp_all
qed


lemma waits_bounds:
  "waits p a q R w \<Longrightarrow> p < length (promises w) \<and> a < length (promises w) \<and> q < length (promises w)"
  by (simp add: waits_def)

lemma waits_new_promise:
  assumes w: "waits p a q R w"
  shows "waits p a q R (snd (new_promise st w))"
  using waits_bounds [OF w]
  by (intro waits_frame [OF w]) (simp_all add: new_promise_obs)

lemma waits_callApi:
  assumes w: "waits p a q R w"
  shows "waits p a q R (snd (callApi args w))"
  using waits_bounds [OF w]
  by (intro waits_frame [OF w]) (auto simp add: callApi_obs)

lemma waits_upd_client: "waits p a q R w \<Longrightarrow> waits p a q R (upd_client c f w)"
  by (erule waits_frame) (simp_all add: upd_client_obs)

lemma waits_new_object: "waits p a q R w \<Longrightarrow> waits p a q R (snd (new_object h w))"
  by (erule waits_frame) (simp_all add: new_object_obs)

lemma waits_resolve_with:
  "waits p a q R w \<Longrightarrow> y \<noteq> a \<Longrightarrow> y \<noteq> q \<Longrightarrow> waits p a q R (resolve_with y t w)"
  by (erule waits_frame) (auto simp add: resolve_with_obs)

lemma waits_register:
  "waits p a q R w \<Longrightarrow> rtarget r \<noteq> a \<Longrightarrow> rtarget r \<noteq> q \<Longrightarrow> waits p a q R (register x r w)"
  by (erule waits_frame) (auto simp add: register_obs split: if_splits)

lemma waits_settle_other:
  assumes w: "waits p a q R w" and x: "x \<noteq> p" "x \<noteq> a" "x \<noteq> q"
  shows "waits p a q R (settle x st w)"
proof (rule waits_frame [OF w])
  from w have rq: "\<And>y r. r \<in> set (reactions_of w y) \<Longrightarrow> rtarget r = q \<Longrightarrow> y = p"
    and ra: "\<And>y r. r \<in> set (reactions_of w y) \<Longrightarrow> rtarget r = a \<Longrightarrow> y = q"
    by (simp_all add: waits_def)
  show "length (promises w) \<le> length (promises (settle x st w))"
    by (simp add: settle_obs)
  show "pstate_of (settle x st w) p = pstate_of w p" "pstate_of (settle x st w) q = pstate_of w q"
    "pstate_of (settle x st w) a = pstate_of w a"
    using x by (simp_all add: settle_obs)
  show "r \<in> set (reactions_of w y)"
    if "r \<in> set (reactions_of (settle x st w) y)" for y r
    using that by (simp add: settle_obs split: if_splits)
  show "r \<in> set (reactions_of (settle x st w) y)"
    if "r \<in> set (reactions_of w y)" "rtarget r = a \<or> rtarget r = q" for y r
    using that rq [of r y] ra [of r y] x by (auto simp add: settle_obs)
  show "j \<in> set (jobs w)"
    if h: "j \<in> set (jobs (settle x st w))" "jtarget j = a \<or> jtarget j = q" for j
  proof (rule ccontr)
    assume "j \<notin> set (jobs w)"
    with h(1) obtain r where r: "r \<in> set (reactions_of w x)" "j = React r st"
      by (auto simp add: settle_obs split: if_splits)
    with h(2) have "rtarget r = a \<or> rtarget r = q" by simp
    with r(1) rq [of r x] ra [of r x] x show False by blast
  qed
  show "j \<in> set (jobs (settle x st w))" if "j \<in> set (jobs w)" for j
    using that by (simp add: settle_obs)
  show "t \<in> snd ` set (calls w)" if "t \<in> snd ` set (calls (settle x st w))" for t
    using that by (simp add: settle_obs)
qed

lemma waits_dequeue_other:
  assumes w: "waits p a q R w" and j: "jobs w = j # js" "jtarget j \<noteq> a" "jtarget j \<noteq> q"
  shows "waits p a q R (w\<lparr>jobs := js\<rparr>)"
  using j by (intro waits_frame [OF w]) (auto simp add: jobs_update_obs)


lemma waits_distinct: "waits p a q R w \<Longrightarrow> p \<noteq> q \<and> p \<noteq> a \<and> a \<noteq> q \<and> rtarget R = q"
  by (simp add: waits_def)

lemma waits_calls: "waits p a q R w \<Longrightarrow> t \<in> snd ` set (calls w) \<Longrightarrow> t \<noteq> a \<and> t \<noteq> q"
  unfolding waits_def by (elim conjE) (erule (1) bspec)

lemma waits_jq:
  "waits p a q R w \<Longrightarrow> j \<in> set (jobs w) \<Longrightarrow> jtarget j = q \<Longrightarrow>
   \<exists>e. j = React R (Rejected e) \<and> pstate_of w p = Rejected e"
  by (simp add: waits_def)

lemma waits_rq:
  "waits p a q R w \<Longrightarrow> r \<in> set (reactions_of w x) \<Longrightarrow> rtarget r = q \<Longrightarrow> x = p \<and> r = R"
  by (simp add: waits_def)

lemma waits_ja:
  "waits p a q R w \<Longrightarrow> j \<in> set (jobs w) \<Longrightarrow> jtarget j = a \<Longrightarrow>
   j = ResolveThenable a q \<or> (\<exists>e. j = React (Follow a) (Rejected e) \<and> pstate_of w q = Rejected e)"
  by (simp add: waits_def)

lemma waits_ra:
  "waits p a q R w \<Longrightarrow> r \<in> set (reactions_of w x) \<Longrightarrow> rtarget r = a \<Longrightarrow> x = q \<and> r = Follow a"
  by (simp add: waits_def)

lemma waits_sq:
  "waits p a q R w \<Longrightarrow>
   pstate_of w q = Pending \<or> (\<exists>e. pstate_of w q = Rejected e \<and> pstate_of w p = Rejected e)"
  by (simp add: waits_def)

lemma waits_sa:
  "waits p a q R w \<Longrightarrow>
   pstate_of w a = Pending \<or> (\<exists>e. pstate_of w a = Rejected e \<and> pstate_of w q = Rejected e)"
  by (simp add: waits_def)

lemma waits_eq: "waits p a q R w \<Longrightarrow> pstate_of w q \<noteq> Pending \<Longrightarrow> Follow a \<notin> set (reactions_of w q)"
  by (simp add: waits_def)

lemma waits_lp: "waits p a q R w \<Longrightarrow> pstate_of w p = Pending \<Longrightarrow> R \<in> set (reactions_of w p)"
  by (simp add: waits_def)

lemma waits_lq:
  "waits p a q R w \<Longrightarrow> pstate_of w p = Rejected e \<Longrightarrow>
   pstate_of w q = Rejected e \<or> React R (Rejected e) \<in> set (jobs w)"
  by (simp add: waits_def)

lemma waits_la:
  "waits p a q R w \<Longrightarrow>
   pstate_of w a \<noteq> Pending \<or> ResolveThenable a q \<in> set (jobs w)
   \<or> Follow a \<in> set (reactions_of w q) \<or> (\<exists>e. React (Follow a) (Rejected e) \<in> set (jobs w))"
  by (simp add: waits_def)


lemma waits_run_q:
  assumes w: "waits p a q R w" and j: "jobs w = React R (Rejected e) # js"
  shows "waits p a q R (settle q (Rejected e) (w\<lparr>jobs := js\<rparr>))"
proof -
  note d = waits_distinct [OF w]
  note b = waits_bounds [OF w]
  have pe: "pstate_of w p = Rejected e"
    using waits_jq [OF w, of "React R (Rejected e)"] j d by auto
  have lv: "live w q = (pstate_of w q = Pending)"
    using b by (simp add: live_def pstate_of_def)
  show ?thesis
    unfolding waits_def
  proof (intro conjI)
    show "p \<noteq> q" "p \<noteq> a" "a \<noteq> q" "rtarget R = q" using d by simp_all
    show "p < length (promises (settle q (Rejected e) (w\<lparr>jobs := js\<rparr>)))"
      "a < length (promises (settle q (Rejected e) (w\<lparr>jobs := js\<rparr>)))"
      "q < length (promises (settle q (Rejected e) (w\<lparr>jobs := js\<rparr>)))"
      using b by (simp_all add: settle_obs jobs_update_obs)
    show "\<forall>t\<in>snd ` set (calls (settle q (Rejected e) (w\<lparr>jobs := js\<rparr>))). t \<noteq> a \<and> t \<noteq> q"
      using waits_calls [OF w] by (simp add: settle_obs)
    show "\<forall>j\<in>set (jobs (settle q (Rejected e) (w\<lparr>jobs := js\<rparr>))).
       jtarget j = q \<longrightarrow>
       (\<exists>ea. j = React R (Rejected ea) \<and>
             pstate_of (settle q (Rejected e) (w\<lparr>jobs := js\<rparr>)) p = Rejected ea)"
    proof (intro ballI impI)
      fix x assume x: "x \<in> set (jobs (settle q (Rejected e) (w\<lparr>jobs := js\<rparr>)))" "jtarget x = q"
      then consider "x \<in> set js" | r where "r \<in> set (reactions_of w q)" "x = React r (Rejected e)"
        by (auto simp add: settle_obs jobs_update_obs split: if_splits)
      then show "\<exists>ea. x = React R (Rejected ea) \<and>
             pstate_of (settle q (Rejected e) (w\<lparr>jobs := js\<rparr>)) p = Rejected ea"
      proof cases
        case 1
        then have "x \<in> set (jobs w)" using j by simp
        from waits_jq [OF w this x(2)] show ?thesis
          using d by (simp add: settle_obs jobs_update_obs)
      next
        case 2
        with x(2) waits_rq [OF w, of r q] d show ?thesis by simp
      qed
    qed
    show "\<forall>x. \<forall>r\<in>set (reactions_of (settle q (Rejected e) (w\<lparr>jobs := js\<rparr>)) x).
       rtarget r = q \<longrightarrow> x = p \<and> r = R"
      using waits_rq [OF w] by (auto simp add: settle_obs jobs_update_obs split: if_splits)
    show "\<forall>j\<in>set (jobs (settle q (Rejected e) (w\<lparr>jobs := js\<rparr>))).
       jtarget j = a \<longrightarrow>
       j = ResolveThenable a q \<or>
       (\<exists>ea. j = React (Follow a) (Rejected ea) \<and>
             pstate_of (settle q (Rejected e) (w\<lparr>jobs := js\<rparr>)) q = Rejected ea)"
    proof (intro ballI impI)
      fix x assume x: "x \<in> set (jobs (settle q (Rejected e) (w\<lparr>jobs := js\<rparr>)))" "jtarget x = a"
      then consider "x \<in> set js"
        | r where "r \<in> set (reactions_of w q)" "x = React r (Rejected e)" "live w q"
        by (auto simp add: settle_obs jobs_update_obs split: if_splits)
      then show "x = ResolveThenable a q \<or>
       (\<exists>ea. x = React (Follow a) (Rejected ea) \<and>
             pstate_of (settle q (Rejected e) (w\<lparr>jobs := js\<rparr>)) q = Rejected ea)"
      proof cases
        case 1
        then have "x \<in> set (jobs w)" using j by simp
        from waits_ja [OF w this x(2)] show ?thesis
          by (auto simp add: settle_obs jobs_update_obs lv)
      next
        case 2
        with x(2) waits_ra [OF w, of r q] show ?thesis
          by (simp add: settle_obs jobs_update_obs)
      qed
    qed
    show "\<forall>x. \<forall>r\<in>set (reactions_of (settle q (Rejected e) (w\<lparr>jobs := js\<rparr>)) x).
       rtarget r = a \<longrightarrow> x = q \<and> r = Follow a"
      using waits_ra [OF w] by (auto simp add: settle_obs jobs_update_obs split: if_splits)
    show "pstate_of (settle q (Rejected e) (w\<lparr>jobs := js\<rparr>)) q = Pending \<or>
      (\<exists>ea. pstate_of (settle q (Rejected e) (w\<lparr>jobs := js\<rparr>)) q = Rejected ea \<and>
            pstate_of (settle q (Rejected e) (w\<lparr>jobs := js\<rparr>)) p = Rejected ea)"
      using waits_sq [OF w] pe d by (auto simp add: settle_obs jobs_update_obs lv)
    show "pstate_of (settle q (Rejected e) (w\<lparr>jobs := js\<rparr>)) a = Pending \<or>
      (\<exists>ea. pstate_of (settle q (Rejected e) (w\<lparr>jobs := js\<rparr>)) a = Rejected ea \<and>
            pstate_of (settle q (Rejected e) (w\<lparr>jobs := js\<rparr>)) q = Rejected ea)"
      using waits_sa [OF w] d by (auto simp add: settle_obs jobs_update_obs lv)
    show "pstate_of (settle q (Rejected e) (w\<lparr>jobs := js\<rparr>)) q \<noteq> Pending \<longrightarrow>
      Follow a \<notin> set (reactions_of (settle q (Rejected e) (w\<lparr>jobs := js\<rparr>)) q)"
      using waits_eq [OF w] by (auto simp add: settle_obs jobs_update_obs lv)
    show "pstate_of (settle q (Rejected e) (w\<lparr>jobs := js\<rparr>)) p = Pending \<longrightarrow>
      R \<in> set (reactions_of (settle q (Rejected e) (w\<lparr>jobs := js\<rparr>)) p)"
      using pe d by (simp add: settle_obs jobs_update_obs)
    show "\<forall>ea. pstate_of (settle q (Rejected e) (w\<lparr>jobs := js\<rparr>)) p = Rejected ea \<longrightarrow>
         pstate_of (settle q (Rejected e) (w\<lparr>jobs := js\<rparr>)) q = Rejected ea \<or>
         React R (Rejected ea) \<in> set (jobs (settle q (Rejected e) (w\<lparr>jobs := js\<rparr>)))"
      using waits_sq [OF w] pe d by (auto simp add: settle_obs jobs_update_obs lv)
    show "pstate_of (settle q (Rejected e) (w\<lparr>jobs := js\<rparr>)) a \<noteq> Pending \<or>
      ResolveThenable a q \<in> set (jobs (settle q (Rejected e) (w\<lparr>jobs := js\<rparr>))) \<or>
      Follow a \<in> set (reactions_of (settle q (Rejected e) (w\<lparr>jobs := js\<rparr>)) q) \<or>
      (\<exists>ea. React (Follow a) (Rejected ea) \<in> set (jobs (settle q (Rejected e) (w\<lparr>jobs := js\<rparr>))))"
    proof -
      consider "pstate_of w a \<noteq> Pending" | "ResolveThenable a q \<in> set (jobs w)"
        | "Follow a \<in> set (reactions_of w q)" | e' where "React (Follow a) (Rejected e') \<in> set (jobs w)"
        using waits_la [OF w] by blast
      then show ?thesis
      proof cases
        case 1 then show ?thesis using d by (simp add: settle_obs jobs_update_obs)
      next
        case 2 then show ?thesis using j by (simp add: settle_obs jobs_update_obs)
      next
        case 3
        with waits_eq [OF w] have "live w q" by (auto simp add: lv)
        with 3 show ?thesis by (auto simp add: settle_obs jobs_update_obs)
      next
        case 4
        then have "React (Follow a) (Rejected e') \<in> set js"
          using j d by auto
        then show ?thesis by (auto simp add: settle_obs jobs_update_obs)
      qed
    qed
  qed
qed


lemma settle_skip: "\<not> (live w x \<and> st \<noteq> Pending) \<Longrightarrow> settle x st w = w"
  by (auto simp add: settle_def live_def)

lemma waits_settle_p_rejected:
  assumes w: "waits p a q R w" and l: "live w p"
  shows "waits p a q R (settle p (Rejected e) w)"
proof -
  define w' where "w' = settle p (Rejected e) w"
  note d = waits_distinct [OF w]
  note b = waits_bounds [OF w]
  have pp: "pstate_of w p = Pending" using l by (rule live_pstate)
  have qp: "pstate_of w q = Pending" using waits_sq [OF w] pp by auto
  have ap: "pstate_of w a = Pending" using waits_sa [OF w] qp by auto
  have o: "length (promises w') = length (promises w)"
    "\<And>y. pstate_of w' y = (if y = p then Rejected e else pstate_of w y)"
    "\<And>y. reactions_of w' y = (if y = p then [] else reactions_of w y)"
    "jobs w' = jobs w @ map (\<lambda>r. React r (Rejected e)) (reactions_of w p)"
    "calls w' = calls w"
    using l by (simp_all add: w'_def settle_obs)
  have "waits p a q R w'"
    unfolding waits_def
  proof (intro conjI)
    show "p \<noteq> q" "p \<noteq> a" "a \<noteq> q" "rtarget R = q" using d by simp_all
    show "p < length (promises w')" "a < length (promises w')" "q < length (promises w')"
      using b by (simp_all add: o)
    show "\<forall>t\<in>snd ` set (calls w'). t \<noteq> a \<and> t \<noteq> q"
      using waits_calls [OF w] by (simp add: o)
    show "\<forall>j\<in>set (jobs w'). jtarget j = q \<longrightarrow>
       (\<exists>e. j = React R (Rejected e) \<and> pstate_of w' p = Rejected e)"
    proof (intro ballI impI)
      fix x assume x: "x \<in> set (jobs w')" "jtarget x = q"
      then consider "x \<in> set (jobs w)" | r where "r \<in> set (reactions_of w p)" "x = React r (Rejected e)"
        by (auto simp add: o)
      then show "\<exists>e. x = React R (Rejected e) \<and> pstate_of w' p = Rejected e"
      proof cases
        case 1
        from waits_jq [OF w this x(2)] pp show ?thesis by simp
      next
        case 2
        with x(2) waits_rq [OF w, of r p] show ?thesis by (simp add: o)
      qed
    qed
    show "\<forall>x. \<forall>r\<in>set (reactions_of w' x). rtarget r = q \<longrightarrow> x = p \<and> r = R"
      using waits_rq [OF w] by (auto simp add: o split: if_splits)
    show "\<forall>j\<in>set (jobs w'). jtarget j = a \<longrightarrow>
       j = ResolveThenable a q \<or> (\<exists>e. j = React (Follow a) (Rejected e) \<and> pstate_of w' q = Rejected e)"
    proof (intro ballI impI)
      fix x assume x: "x \<in> set (jobs w')" "jtarget x = a"
      then consider "x \<in> set (jobs w)" | r where "r \<in> set (reactions_of w p)" "x = React r (Rejected e)"
        by (auto simp add: o)
      then show "x = ResolveThenable a q \<or> (\<exists>e. x = React (Follow a) (Rejected e) \<and> pstate_of w' q = Rejected e)"
      proof cases
        case 1
        from waits_ja [OF w this x(2)] d show ?thesis by (simp add: o)
      next
        case 2
        with x(2) waits_ra [OF w, of r p] d show ?thesis by simp
      qed
    qed
    show "\<forall>x. \<forall>r\<in>set (reactions_of w' x). rtarget r = a \<longrightarrow> x = q \<and> r = Follow a"
      using waits_ra [OF w] by (auto simp add: o split: if_splits)
    show "pstate_of w' q = Pending \<or> (\<exists>e. pstate_of w' q = Rejected e \<and> pstate_of w' p = Rejected e)"
      using qp d by (simp add: o)
    show "pstate_of w' a = Pending \<or> (\<exists>e. pstate_of w' a = Rejected e \<and> pstate_of w' q = Rejected e)"
      using ap d by (simp add: o)
    show "pstate_of w' q \<noteq> Pending \<longrightarrow> Follow a \<notin> set (reactions_of w' q)"
      using qp d by (simp add: o)
    show "pstate_of w' p = Pending \<longrightarrow> R \<in> set (reactions_of w' p)"
      by (simp add: o)
    show "\<forall>e. pstate_of w' p = Rejected e \<longrightarrow>
         pstate_of w' q = Rejected e \<or> React R (Rejected e) \<in> set (jobs w')"
      using waits_lp [OF w pp] by (auto simp add: o)
    show "pstate_of w' a \<noteq> Pending \<or> ResolveThenable a q \<in> set (jobs w')
        \<or> Follow a \<in> set (reactions_of w' q) \<or> (\<exists>e. React (Follow a) (Rejected e) \<in> set (jobs w'))"
      using waits_la [OF w] ap d by (auto simp add: o)
  qed
  then show ?thesis by (simp add: w'_def)
qed

text \<open>The promise \<open>p\<close> is fulfilled, or the request still waits for it.\<close>

definition awaits :: "pid \<Rightarrow> pid \<Rightarrow> pid \<Rightarrow> reaction \<Rightarrow> world \<Rightarrow> bool" where
  "awaits p a q R w = ((\<exists>v. pstate_of w p = Fulfilled v) \<or> waits p a q R w)"

lemma waits_settle_p:
  assumes w: "waits p a q R w"
  shows "awaits p a q R (settle p st w)"
proof (cases "live w p \<and> st \<noteq> Pending")
  case False
  then show ?thesis using w by (simp add: settle_skip awaits_def)
next
  case True
  then show ?thesis
    using waits_settle_p_rejected [OF w, of _] 
    by (cases st) (simp_all add: awaits_def settle_obs)
qed

lemma waits_subscribe:
  assumes w: "waits p a q R w" and j: "jobs w = ResolveThenable a q # js"
  shows "waits p a q R (register q (Follow a) (w\<lparr>jobs := js\<rparr>))"
proof -
  define w' where "w' = register q (Follow a) (w\<lparr>jobs := js\<rparr>)"
  note d = waits_distinct [OF w]
  note b = waits_bounds [OF w]
  have lv: "live w q = (pstate_of w q = Pending)"
    using b by (simp add: live_def pstate_of_def)
  have o: "length (promises w') = length (promises w)"
    "\<And>y. pstate_of w' y = pstate_of w y"
    "\<And>y. reactions_of w' y = (if y = q \<and> live w q then reactions_of w q @ [Follow a] else reactions_of w y)"
    "jobs w' = js @ (if \<not> live w q then [React (Follow a) (pstate_of w q)] else [])"
    "calls w' = calls w"
    using b by (simp_all add: w'_def register_obs jobs_update_obs)
  have sub: "\<And>x. x \<in> set js \<Longrightarrow> x \<in> set (jobs w)" using j by simp
  have "waits p a q R w'"
    unfolding waits_def
  proof (intro conjI)
    show "p \<noteq> q" "p \<noteq> a" "a \<noteq> q" "rtarget R = q" using d by simp_all
    show "p < length (promises w')" "a < length (promises w')" "q < length (promises w')"
      using b by (simp_all add: o)
    show "\<forall>t\<in>snd ` set (calls w'). t \<noteq> a \<and> t \<noteq> q"
      using waits_calls [OF w] by (simp add: o)
    show "\<forall>j\<in>set (jobs w'). jtarget j = q \<longrightarrow>
       (\<exists>e. j = React R (Rejected e) \<and> pstate_of w' p = Rejected e)"
    proof (intro ballI impI)
      fix x assume x: "x \<in> set (jobs w')" "jtarget x = q"
      have "jtarget (React (Follow a) (pstate_of w q)) \<noteq> jtarget x" using x(2) d by simp
      then have "x \<noteq> React (Follow a) (pstate_of w q)" by blast
      with x(1) have "x \<in> set js" by (simp add: o split: if_splits)
      from waits_jq [OF w sub [OF this] x(2)]
      show "\<exists>e. x = React R (Rejected e) \<and> pstate_of w' p = Rejected e" by (simp add: o)
    qed
    show "\<forall>x. \<forall>r\<in>set (reactions_of w' x). rtarget r = q \<longrightarrow> x = p \<and> r = R"
      using waits_rq [OF w] d by (auto simp add: o split: if_splits)
    show "\<forall>j\<in>set (jobs w'). jtarget j = a \<longrightarrow>
       j = ResolveThenable a q \<or> (\<exists>e. j = React (Follow a) (Rejected e) \<and> pstate_of w' q = Rejected e)"
    proof (intro ballI impI)
      fix x assume x: "x \<in> set (jobs w')" "jtarget x = a"
      then consider "x \<in> set js" | "\<not> live w q" "x = React (Follow a) (pstate_of w q)"
        by (auto simp add: o split: if_splits)
      then show "x = ResolveThenable a q \<or> (\<exists>e. x = React (Follow a) (Rejected e) \<and> pstate_of w' q = Rejected e)"
      proof cases
        case 1
        from waits_ja [OF w sub [OF this] x(2)] show ?thesis by (simp add: o)
      next
        case 2
        with waits_sq [OF w] show ?thesis by (auto simp add: o lv)
      qed
    qed
    show "\<forall>x. \<forall>r\<in>set (reactions_of w' x). rtarget r = a \<longrightarrow> x = q \<and> r = Follow a"
      using waits_ra [OF w] by (auto simp add: o split: if_splits)
    show "pstate_of w' q = Pending \<or> (\<exists>e. pstate_of w' q = Rejected e \<and> pstate_of w' p = Rejected e)"
      using waits_sq [OF w] by (simp add: o)
    show "pstate_of w' a = Pending \<or> (\<exists>e. pstate_of w' a = Rejected e \<and> pstate_of w' q = Rejected e)"
      using waits_sa [OF w] by (simp add: o)
    show "pstate_of w' q \<noteq> Pending \<longrightarrow> Follow a \<notin> set (reactions_of w' q)"
      using waits_eq [OF w] by (auto simp add: o lv)
    show "pstate_of w' p = Pending \<longrightarrow> R \<in> set (reactions_of w' p)"
      using waits_lp [OF w] d by (simp add: o)
    show "\<forall>e. pstate_of w' p = Rejected e \<longrightarrow>
         pstate_of w' q = Rejected e \<or> React R (Rejected e) \<in> set (jobs w')"
    proof (intro allI impI)
      fix e assume "pstate_of w' p = Rejected e"
      then have "pstate_of w p = Rejected e" by (simp add: o)
      from waits_lq [OF w this]
      show "pstate_of w' q = Rejected e \<or> React R (Rejected e) \<in> set (jobs w')"
        using j by (auto simp add: o)
    qed
    show "pstate_of w' a \<noteq> Pending \<or> ResolveThenable a q \<in> set (jobs w')
        \<or> Follow a \<in> set (reactions_of w' q) \<or> (\<exists>e. React (Follow a) (Rejected e) \<in> set (jobs w'))"
      using waits_sq [OF w] by (cases "live w q") (auto simp add: o lv)
  qed
  then show ?thesis by (simp add: w'_def)
qed

lemma waits_run_a:
  assumes w: "waits p a q R w" and j: "jobs w = React (Follow a) (Rejected e) # js"
  shows "waits p a q R (settle a (Rejected e) (w\<lparr>jobs := js\<rparr>))"
proof -
  define w' where "w' = settle a (Rejected e) (w\<lparr>jobs := js\<rparr>)"
  note d = waits_distinct [OF w]
  note b = waits_bounds [OF w]
  have lv: "live w a = (pstate_of w a = Pending)"
    using b by (simp add: live_def pstate_of_def)
  have qe: "pstate_of w q = Rejected e"
    using waits_ja [OF w, of "React (Follow a) (Rejected e)"] j by auto
  have o: "length (promises w') = length (promises w)"
    "\<And>y. pstate_of w' y = (if y = a \<and> live w a then Rejected e else pstate_of w y)"
    "\<And>y. reactions_of w' y = (if y = a \<and> live w a then [] else reactions_of w y)"
    "jobs w' = js @ (if live w a then map (\<lambda>r. React r (Rejected e)) (reactions_of w a) else [])"
    "calls w' = calls w"
    by (simp_all add: w'_def settle_obs jobs_update_obs)
  have sub: "\<And>x. x \<in> set js \<Longrightarrow> x \<in> set (jobs w)" using j by simp
  have "waits p a q R w'"
    unfolding waits_def
  proof (intro conjI)
    show "p \<noteq> q" "p \<noteq> a" "a \<noteq> q" "rtarget R = q" using d by simp_all
    show "p < length (promises w')" "a < length (promises w')" "q < length (promises w')"
      using b by (simp_all add: o)
    show "\<forall>t\<in>snd ` set (calls w'). t \<noteq> a \<and> t \<noteq> q"
      using waits_calls [OF w] by (simp add: o)
    show "\<forall>j\<in>set (jobs w'). jtarget j = q \<longrightarrow>
       (\<exists>e. j = React R (Rejected e) \<and> pstate_of w' p = Rejected e)"
    proof (intro ballI impI)
      fix x assume x: "x \<in> set (jobs w')" "jtarget x = q"
      then consider "x \<in> set js" | r where "r \<in> set (reactions_of w a)" "x = React r (Rejected e)"
        by (auto simp add: o split: if_splits)
      then show "\<exists>e. x = React R (Rejected e) \<and> pstate_of w' p = Rejected e"
      proof cases
        case 1
        from waits_jq [OF w sub [OF this] x(2)] d show ?thesis by (simp add: o)
      next
        case 2
        with x(2) waits_rq [OF w, of r a] d show ?thesis by simp
      qed
    qed
    show "\<forall>x. \<forall>r\<in>set (reactions_of w' x). rtarget r = q \<longrightarrow> x = p \<and> r = R"
      using waits_rq [OF w] by (auto simp add: o split: if_splits)
    show "\<forall>j\<in>set (jobs w'). jtarget j = a \<longrightarrow>
       j = ResolveThenable a q \<or> (\<exists>e. j = React (Follow a) (Rejected e) \<and> pstate_of w' q = Rejected e)"
    proof (intro ballI impI)
      fix x assume x: "x \<in> set (jobs w')" "jtarget x = a"
      then consider "x \<in> set js" | r where "r \<in> set (reactions_of w a)" "x = React r (Rejected e)"
        by (auto simp add: o split: if_splits)
      then show "x = ResolveThenable a q \<or> (\<exists>e. x = React (Follow a) (Rejected e) \<and> pstate_of w' q = Rejected e)"
      proof cases
        case 1
        from waits_ja [OF w sub [OF this] x(2)] d show ?thesis by (simp add: o)
      next
        case 2
        with x(2) waits_ra [OF w, of r a] d show ?thesis by simp
      qed
    qed
    show "\<forall>x. \<forall>r\<in>set (reactions_of w' x). rtarget r = a \<longrightarrow> x = q \<and> r = Follow a"
      using waits_ra [OF w] by (auto simp add: o split: if_splits)
    show "pstate_of w' q = Pending \<or> (\<exists>e. pstate_of w' q = Rejected e \<and> pstate_of w' p = Rejected e)"
      using waits_sq [OF w] d by (simp add: o)
    show "pstate_of w' a = Pending \<or> (\<exists>e. pstate_of w' a = Rejected e \<and> pstate_of w' q = Rejected e)"
      using waits_sa [OF w] d qe by (simp add: o)
    show "pstate_of w' q \<noteq> Pending \<longrightarrow> Follow a \<notin> set (reactions_of w' q)"
      using waits_eq [OF w] d by (simp add: o)
    show "pstate_of w' p = Pending \<longrightarrow> R \<in> set (reactions_of w' p)"
      using waits_lp [OF w] d by (simp add: o)
    show "\<forall>e. pstate_of w' p = Rejected e \<longrightarrow>
         pstate_of w' q = Rejected e \<or> React R (Rejected e) \<in> set (jobs w')"
    proof (intro allI impI)
      fix e' assume "pstate_of w' p = Rejected e'"
      then have "pstate_of w p = Rejected e'" using d by (simp add: o)
      from waits_lq [OF w this]
      show "pstate_of w' q = Rejected e' \<or> React R (Rejected e') \<in> set (jobs w')"
        using j d by (auto simp add: o)
    qed
    show "pstate_of w' a \<noteq> Pending \<or> ResolveThenable a q \<in> set (jobs w')
        \<or> Follow a \<in> set (reactions_of w' q) \<or> (\<exists>e. React (Follow a) (Rejected e) \<in> set (jobs w'))"
      by (simp add: o lv)
  qed
  then show ?thesis by (simp add: w'_def)
qed


text \<open>Steps that only add promises without reactions, objects and clients.\<close>

definition grows :: "world \<Rightarrow> world \<Rightarrow> bool" where
  "grows w w' =
     ((\<exists>ps. promises w' = promises w @ ps \<and> (\<forall>x \<in> set ps. reactions x = []))
      \<and> jobs w' = jobs w \<and> calls w' = calls w)"

lemma grows_refl: "grows w w"
  by (simp add: grows_def)

lemma grows_new_promise: "grows w w1 \<Longrightarrow> grows w (snd (new_promise st w1))"
  by (auto simp add: grows_def new_promise_def)

lemma grows_new_object: "grows w w1 \<Longrightarrow> grows w (snd (new_object h w1))"
  by (auto simp add: grows_def new_object_def)

lemma grows_upd_client: "grows w w1 \<Longrightarrow> grows w (upd_client c f w1)"
  by (auto simp add: grows_def upd_client_def)

lemma grows_singleton: "grows w w1 \<Longrightarrow> grows w (w1\<lparr>singletonClient := x\<rparr>)"
  by (auto simp add: grows_def)

lemma grows_clients: "grows w w1 \<Longrightarrow> grows w (w1\<lparr>clients := x\<rparr>)"
  by (auto simp add: grows_def)

lemmas grows_rules = grows_new_promise grows_new_object grows_upd_client grows_singleton
  grows_clients grows_refl

lemma grows_obs:
  assumes "grows w w'"
  shows "length (promises w) \<le> length (promises w')"
    and "x < length (promises w) \<Longrightarrow> pstate_of w' x = pstate_of w x"
    and "reactions_of w' x = reactions_of w x"
    and "jobs w' = jobs w" and "calls w' = calls w"
  using assms by (auto simp add: grows_def pstate_of_def reactions_of_def nth_append)

lemma grows_new_SupersetClient: "grows w (snd (new_SupersetClient config w))"
  by (cases "cfg_csrfToken config")
     (simp_all add: new_SupersetClient_None new_SupersetClient_Some grows_def)

lemma grows_configure: "grows w (snd (configure config w))"
  using grows_new_SupersetClient [of w config]
  by (simp add: configure_def split_beta grows_def)

lemma grows_reset: "grows w (reset w)"
  by (simp add: reset_def grows_def)

lemma grows_token_callback: "grows w (snd (token_callback c response w))"
  by (auto simp add: token_callback_def Let_def split_beta
      split: sum.splits jsval.splits intro!: grows_rules)

lemma waits_grows:
  assumes w: "waits p a q R w" and g: "grows w w'"
  shows "waits p a q R w'"
  using waits_bounds [OF w] grows_obs [OF g]
  by (intro waits_frame [OF w]) simp_all


text \<open>A settled promise keeps its outcome.\<close>

definition later :: "world \<Rightarrow> world \<Rightarrow> bool" where
  "later w w' =
     (length (promises w) \<le> length (promises w')
      \<and> (\<forall>x. pstate_of w x \<noteq> Pending \<longrightarrow> pstate_of w' x = pstate_of w x))"

lemma later_refl: "later w w"
  by (simp add: later_def)

lemma later_trans: "later w w1 \<Longrightarrow> later w1 w2 \<Longrightarrow> later w w2"
  by (auto simp add: later_def)

lemma later_step:
  assumes "later w w1" and "length (promises w1) \<le> length (promises w2)"
    and "\<And>x. pstate_of w1 x \<noteq> Pending \<Longrightarrow> pstate_of w2 x = pstate_of w1 x"
  shows "later w w2"
  using assms by (auto simp add: later_def)

lemma later_settle: "later w w1 \<Longrightarrow> later w (settle x st w1)"
  by (erule later_step) (auto simp add: settle_obs dest: live_pstate)

lemma later_register: "later w w1 \<Longrightarrow> later w (register x r w1)"
  by (erule later_step) (simp_all add: register_obs)

lemma later_resolve_with: "later w w1 \<Longrightarrow> later w (resolve_with a p w1)"
  by (erule later_step) (simp_all add: resolve_with_obs)

lemma later_callApi: "later w w1 \<Longrightarrow> later w (snd (callApi args w1))"
  by (erule later_step) (simp_all add: callApi_obs)

lemma later_jobs: "later w w1 \<Longrightarrow> later w (w1\<lparr>jobs := js\<rparr>)"
  by (erule later_step) (simp_all add: jobs_update_obs)

lemma later_grows: "later w w1 \<Longrightarrow> grows w1 w2 \<Longrightarrow> later w w2"
proof (erule later_step)
  assume g: "grows w1 w2"
  show "length (promises w1) \<le> length (promises w2)" using grows_obs(1) [OF g] .
  fix x assume "pstate_of w1 x \<noteq> Pending"
  then have "x < length (promises w1)" using settled_valid by blast
  then show "pstate_of w2 x = pstate_of w1 x" by (rule grows_obs(2) [OF g])
qed

lemma later_new_promise: "later w w1 \<Longrightarrow> later w (snd (new_promise st w1))"
  by (erule later_grows) (intro grows_rules)

lemma later_upd_client: "later w w1 \<Longrightarrow> later w (upd_client c f w1)"
  by (erule later_grows) (intro grows_rules)

lemma later_token_callback: "later w w1 \<Longrightarrow> later w (snd (token_callback c response w1))"
  by (erule later_grows) (rule grows_token_callback)

lemmas later_rules = later_resolve_with later_register later_settle later_callApi later_jobs
  later_new_promise later_upd_client later_token_callback later_refl

lemma later_run_job: "later w (run_job j w)"
proof (cases j)
  case (ResolveThenable a p)
  then show ?thesis by (simp add: run_job_def) (intro later_rules)
next
  case (React r st)
  show ?thesis
  proof (cases r)
    case (Follow a)
    then show ?thesis using React by (simp add: run_job_def) (intro later_rules)
  next
    case (TokenThen c q)
    then show ?thesis
      using React
      by (cases st; cases "fst (token_callback c (case st of Fulfilled v \<Rightarrow> v) w)")
         (auto simp add: run_job_def split_beta split: prod.splits dest!: sndI
           intro!: later_rules)
  next
    case (GetThen c request q)
    then show ?thesis
      using React
      by (cases st) (auto simp add: run_job_def split_beta get_callback_def intro!: later_rules)
  next
    case (PostThen c request q)
    then show ?thesis
      using React
      by (cases st) (auto simp add: run_job_def split_beta post_callback_def intro!: later_rules)
  qed
qed


text \<open>Every reference to a promise, in the log, the queue and the reactions, is to a
  promise that exists.\<close>

definition refs_ok :: "world \<Rightarrow> bool" where
  "refs_ok w =
     ((\<forall>t \<in> snd ` set (calls w). t < length (promises w))
      \<and> (\<forall>j \<in> set (jobs w). jtarget j < length (promises w))
      \<and> (\<forall>x. \<forall>r \<in> set (reactions_of w x). rtarget r < length (promises w)))"

lemma refs_ok_frame:
  assumes ok: "refs_ok w" and len: "length (promises w) \<le> length (promises w')"
    and c: "\<And>t. t \<in> snd ` set (calls w') \<Longrightarrow> t \<in> snd ` set (calls w) \<or> t < length (promises w')"
    and j: "\<And>j. j \<in> set (jobs w') \<Longrightarrow> j \<in> set (jobs w) \<or> jtarget j < length (promises w')"
    and r: "\<And>x r. r \<in> set (reactions_of w' x) \<Longrightarrow>
        (\<exists>y. r \<in> set (reactions_of w y)) \<or> rtarget r < length (promises w')"
  shows "refs_ok w'"
proof -
  from ok have c0: "\<And>t. t \<in> snd ` set (calls w) \<Longrightarrow> t < length (promises w)"
    and j0: "\<And>j. j \<in> set (jobs w) \<Longrightarrow> jtarget j < length (promises w)"
    and r0: "\<And>x r. r \<in> set (reactions_of w x) \<Longrightarrow> rtarget r < length (promises w)"
    by (auto simp add: refs_ok_def)
  have "t < length (promises w')" if "t \<in> snd ` set (calls w')" for t
  proof -
    from c [OF that] show ?thesis
    proof
      assume "t \<in> snd ` set (calls w)"
      then have "t < length (promises w)" by (rule c0)
      then show ?thesis using len by simp
    qed
  qed
  moreover have "jtarget x < length (promises w')" if "x \<in> set (jobs w')" for x
    using j [OF that] j0 [of x] len by auto
  moreover have "rtarget x < length (promises w')" if "x \<in> set (reactions_of w' y)" for x y
  proof -
    from r [OF that] show ?thesis
    proof
      assume "\<exists>z. x \<in> set (reactions_of w z)"
      then obtain z where "x \<in> set (reactions_of w z)" by blast
      then have "rtarget x < length (promises w)" by (rule r0)
      then show ?thesis using len by simp
    qed
  qed
  ultimately show ?thesis
    unfolding refs_ok_def by blast
qed

lemma refs_ok_grows: "refs_ok w \<Longrightarrow> grows w w' \<Longrightarrow> refs_ok w'"
proof (erule refs_ok_frame)
  assume g: "grows w w'"
  show "length (promises w) \<le> length (promises w')" using grows_obs(1) [OF g] .
  show "\<And>t. t \<in> snd ` set (calls w') \<Longrightarrow> t \<in> snd ` set (calls w) \<or> t < length (promises w')"
    by (simp add: grows_obs(5) [OF g])
  show "\<And>j. j \<in> set (jobs w') \<Longrightarrow> j \<in> set (jobs w) \<or> jtarget j < length (promises w')"
    by (simp add: grows_obs(4) [OF g])
  show "\<And>x r. r \<in> set (reactions_of w' x) \<Longrightarrow>
        (\<exists>y. r \<in> set (reactions_of w y)) \<or> rtarget r < length (promises w')"
    by (auto simp add: grows_obs(3) [OF g])
qed

lemma refs_ok_callApi: "refs_ok w \<Longrightarrow> refs_ok (snd (callApi args w))"
  by (erule refs_ok_frame) (auto simp add: callApi_obs)

lemma refs_ok_register:
  "refs_ok w \<Longrightarrow> rtarget r < length (promises w) \<Longrightarrow> refs_ok (register x r w)"
  by (erule refs_ok_frame) (auto simp add: register_obs split: if_splits)

lemma refs_ok_resolve_with:
  "refs_ok w \<Longrightarrow> a < length (promises w) \<Longrightarrow> refs_ok (resolve_with a p w)"
  by (erule refs_ok_frame) (auto simp add: resolve_with_obs)

lemma refs_ok_settle:
  assumes ok: "refs_ok w"
  shows "refs_ok (settle x st w)"
proof (rule refs_ok_frame [OF ok])
  show "length (promises w) \<le> length (promises (settle x st w))" by (simp add: settle_obs)
  show "\<And>t. t \<in> snd ` set (calls (settle x st w)) \<Longrightarrow>
      t \<in> snd ` set (calls w) \<or> t < length (promises (settle x st w))"
    by (simp add: settle_obs)
  show "\<And>j. j \<in> set (jobs (settle x st w)) \<Longrightarrow>
      j \<in> set (jobs w) \<or> jtarget j < length (promises (settle x st w))"
    using ok by (auto simp add: settle_obs refs_ok_def split: if_splits)
  show "\<And>y r. r \<in> set (reactions_of (settle x st w) y) \<Longrightarrow>
        (\<exists>y. r \<in> set (reactions_of w y)) \<or> rtarget r < length (promises (settle x st w))"
    by (auto simp add: settle_obs split: if_splits)
qed

lemma refs_ok_dequeue:
  assumes "refs_ok w" and "jobs w = j # js"
  shows "refs_ok (w\<lparr>jobs := js\<rparr>)" and "jtarget j < length (promises w)"
  using assms by (auto simp add: refs_ok_def jobs_update_obs)

lemma refs_ok_jobs_target: "refs_ok w \<Longrightarrow> j \<in> set (jobs w) \<Longrightarrow> jtarget j < length (promises w)"
  by (simp add: refs_ok_def)

lemma run_token_job:
  "run_job (React (TokenThen c q) (Fulfilled v)) w =
     (case fst (token_callback c v w) of
        Inl e \<Rightarrow> settle q (Rejected (JThrown e)) (snd (token_callback c v w))
      | Inr t \<Rightarrow> resolve_with q t (snd (token_callback c v w)))"
  by (simp add: run_job_def split: prod.splits sum.splits)

lemma run_get_job:
  "run_job (React (GetThen c request q) (Fulfilled v)) w =
     resolve_with q (length (promises w))
       (snd (callApi (get_args (client w c) (request_headers w c request) request) w))"
  by (simp add: run_job_def get_callback_def split_beta callApi_obs)

lemma run_post_job:
  "run_job (React (PostThen c request q) (Fulfilled v)) w =
     resolve_with q (length (promises w))
       (snd (callApi (post_args (client w c) (request_headers w c request) request) w))"
  by (simp add: run_job_def post_callback_def split_beta callApi_obs)

lemma run_unfulfilled_job:
  "\<forall>v. st \<noteq> Fulfilled v \<Longrightarrow> run_job (React r st) w = settle (rtarget r) st w"
  by (cases r; cases st) (simp_all add: run_job_def)

lemma run_follow_job: "run_job (React (Follow a) st) w = settle a st w"
  by (simp add: run_job_def)

lemma run_resolve_job: "run_job (ResolveThenable a p) w = register p (Follow a) w"
  by (simp add: run_job_def)

lemma length_token_callback:
  "length (promises w) \<le> length (promises (snd (token_callback c v w)))"
  using grows_obs(1) [OF grows_token_callback] .

lemma refs_ok_run_job:
  assumes ok: "refs_ok w" and t: "jtarget j < length (promises w)"
  shows "refs_ok (run_job j w)"
proof (cases j)
  case (ResolveThenable a p)
  then show ?thesis using ok t by (simp add: run_resolve_job refs_ok_register)
next
  case (React r st)
  show ?thesis
  proof (cases "\<exists>v. st = Fulfilled v")
    case False
    then show ?thesis using React ok by (simp add: run_unfulfilled_job refs_ok_settle)
  next
    case True
    then obtain v where v: "st = Fulfilled v" by blast
    show ?thesis
    proof (cases r)
      case (Follow a)
      then show ?thesis using React ok by (simp add: run_follow_job refs_ok_settle)
    next
      case (TokenThen c q)
      have 1: "refs_ok (snd (token_callback c v w))"
        using ok grows_token_callback by (rule refs_ok_grows)
      have 2: "q < length (promises (snd (token_callback c v w)))"
        using t React TokenThen length_token_callback [of w c v] by simp
      show ?thesis
        using React TokenThen v 1 2
        by (simp add: run_token_job refs_ok_settle refs_ok_resolve_with split: sum.splits)
    next
      case (GetThen c request q)
      then show ?thesis
        using React v ok t
        by (simp add: run_get_job refs_ok_resolve_with refs_ok_callApi callApi_obs)
    next
      case (PostThen c request q)
      then show ?thesis
        using React v ok t
        by (simp add: run_post_job refs_ok_resolve_with refs_ok_callApi callApi_obs)
    qed
  qed
qed

text \<open>\<open>get\<close> and \<open>post\<close> subscribe a reaction and return the promise of the async
  function; \<open>getCSRFToken\<close> is a chain of the primitive steps.\<close>

definition subscribed :: "pid \<Rightarrow> reaction \<Rightarrow> world \<Rightarrow> world" where
  "subscribed p R w =
     resolve_with (length (promises w)) (Suc (length (promises w)))
       (register p R (snd (new_promise Pending (snd (new_promise Pending w)))))"

lemma get_subscribed:
  "get c request w =
     (length (promises w),
      subscribed (ensureAuth c w) (GetThen c request (Suc (length (promises w)))) w)"
  by (simp add: get_def subscribed_def split_beta Let_def new_promise_def ensureAuth_def client_def)

lemma post_subscribed:
  "post c request w =
     (length (promises w),
      subscribed (ensureAuth c w) (PostThen c request (Suc (length (promises w)))) w)"
  by (simp add: post_def subscribed_def split_beta Let_def new_promise_def ensureAuth_def client_def)

lemma getCSRFToken_chain:
  "\<exists>args f1 f2 t. snd (getCSRFToken c w) =
       resolve_with (length (promises w)) t
         (upd_client c f2
           (register (Suc (length (promises w))) (TokenThen c (Suc (Suc (length (promises w)))))
             (snd (new_promise Pending
               (snd (callApi args (upd_client c f1 (snd (new_promise Pending w)))))))))"
  by (simp add: getCSRFToken_def split_beta Let_def new_promise_obs callApi_obs upd_client_obs)
     blast

lemma later_subscribed: "later w (subscribed p R w)"
  unfolding subscribed_def by (intro later_rules)

lemma later_getCSRFToken: "later w (snd (getCSRFToken c w))"
proof -
  obtain args f1 f2 t where e: "snd (getCSRFToken c w) =
       resolve_with (length (promises w)) t
         (upd_client c f2
           (register (Suc (length (promises w))) (TokenThen c (Suc (Suc (length (promises w)))))
             (snd (new_promise Pending
               (snd (callApi args (upd_client c f1 (snd (new_promise Pending w)))))))))"
    using getCSRFToken_chain [of c w] by blast
  show ?thesis unfolding e by (intro later_rules)
qed

lemma refs_ok_subscribed:
  assumes ok: "refs_ok w" and R: "rtarget R = Suc (length (promises w))"
  shows "refs_ok (subscribed p R w)"
proof -
  have g: "grows w (snd (new_promise Pending (snd (new_promise Pending w))))"
    by (intro grows_rules)
  show ?thesis
    unfolding subscribed_def
    by (intro refs_ok_resolve_with refs_ok_register refs_ok_grows [OF ok g])
       (simp_all add: R register_obs new_promise_obs)
qed

lemma refs_ok_getCSRFToken:
  assumes ok: "refs_ok w"
  shows "refs_ok (snd (getCSRFToken c w))"
proof -
  obtain args f1 f2 t where e: "snd (getCSRFToken c w) =
       resolve_with (length (promises w)) t
         (upd_client c f2
           (register (Suc (length (promises w))) (TokenThen c (Suc (Suc (length (promises w)))))
             (snd (new_promise Pending
               (snd (callApi args (upd_client c f1 (snd (new_promise Pending w)))))))))"
    using getCSRFToken_chain [of c w] by blast
  have 1: "refs_ok (upd_client c f1 (snd (new_promise Pending w)))"
    by (rule refs_ok_grows [OF ok]) (intro grows_rules)
  have 2: "refs_ok (snd (new_promise Pending
               (snd (callApi args (upd_client c f1 (snd (new_promise Pending w)))))))"
    by (rule refs_ok_grows [OF refs_ok_callApi [OF 1, where args = args]]) (intro grows_rules)
  have 3: "refs_ok (upd_client c f2
           (register (Suc (length (promises w))) (TokenThen c (Suc (Suc (length (promises w)))))
             (snd (new_promise Pending
               (snd (callApi args (upd_client c f1 (snd (new_promise Pending w)))))))))"
  proof (rule refs_ok_grows)
    show "refs_ok (register (Suc (length (promises w))) (TokenThen c (Suc (Suc (length (promises w)))))
             (snd (new_promise Pending
               (snd (callApi args (upd_client c f1 (snd (new_promise Pending w))))))))"
      by (rule refs_ok_register [OF 2]) (simp add: new_promise_obs callApi_obs upd_client_obs)
  qed (intro grows_rules)
  show ?thesis
    unfolding e
    by (rule refs_ok_resolve_with [OF 3])
       (simp add: new_promise_obs callApi_obs upd_client_obs register_obs)
qed

lemma waits_subscribed:
  assumes w: "waits p a q R w" and R': "rtarget R' = Suc (length (promises w))"
  shows "waits p a q R (subscribed p' R' w)"
proof -
  note b = waits_bounds [OF w]
  have g: "grows w (snd (new_promise Pending (snd (new_promise Pending w))))"
    by (intro grows_rules)
  show ?thesis
    unfolding subscribed_def
    using b by (intro waits_resolve_with waits_register waits_grows [OF w g]) (simp_all add: R')
qed

lemma waits_getCSRFToken:
  assumes w: "waits p a q R w"
  shows "waits p a q R (snd (getCSRFToken c w))"
proof -
  note b = waits_bounds [OF w]
  obtain args f1 f2 t where e: "snd (getCSRFToken c w) =
       resolve_with (length (promises w)) t
         (upd_client c f2
           (register (Suc (length (promises w))) (TokenThen c (Suc (Suc (length (promises w)))))
             (snd (new_promise Pending
               (snd (callApi args (upd_client c f1 (snd (new_promise Pending w)))))))))"
    using getCSRFToken_chain [of c w] by blast
  show ?thesis
    unfolding e
    using b
    by (intro waits_resolve_with waits_upd_client waits_register waits_new_promise waits_callApi w)
       simp_all
qed

lemma waits_settle:
  assumes w: "waits p a q R w" and x: "x \<noteq> a" "x \<noteq> q"
  shows "awaits p a q R (settle x st w)"
proof (cases "x = p")
  case True
  then show ?thesis using waits_settle_p [OF w] by simp
next
  case False
  then show ?thesis using waits_settle_other [OF w _ x] by (simp add: awaits_def)
qed

lemma waits_run_other:
  assumes w: "waits p a q R w" and t: "jtarget j \<noteq> a" "jtarget j \<noteq> q"
  shows "awaits p a q R (run_job j w)"
proof (cases j)
  case (ResolveThenable a' p')
  then show ?thesis
    using w t by (simp add: run_resolve_job waits_register awaits_def)
next
  case (React r st)
  show ?thesis
  proof (cases "\<exists>v. st = Fulfilled v")
    case False
    then show ?thesis using React w t by (simp add: run_unfulfilled_job waits_settle)
  next
    case True
    then obtain v where v: "st = Fulfilled v" by blast
    show ?thesis
    proof (cases r)
      case (Follow a')
      then show ?thesis using React w t by (simp add: run_follow_job waits_settle)
    next
      case (TokenThen c q')
      have 1: "waits p a q R (snd (token_callback c v w))"
        using w grows_token_callback by (rule waits_grows)
      show ?thesis
        using React TokenThen v t waits_settle [OF 1] waits_resolve_with [OF 1]
        by (simp add: run_token_job awaits_def split: sum.splits)
    next
      case (GetThen c request q')
      then show ?thesis
        using React v t w
        by (simp add: run_get_job waits_resolve_with waits_callApi awaits_def)
    next
      case (PostThen c request q')
      then show ?thesis
        using React v t w
        by (simp add: run_post_job waits_resolve_with waits_callApi awaits_def)
    qed
  qed
qed

lemma waits_run_job:
  assumes w: "waits p a q R w" and j: "jobs w = j # js"
  shows "awaits p a q R (run_job j (w\<lparr>jobs := js\<rparr>))"
proof -
  note d = waits_distinct [OF w]
  have m: "j \<in> set (jobs w)" using j by simp
  consider "jtarget j = q" | "jtarget j = a" | "jtarget j \<noteq> a" "jtarget j \<noteq> q" by blast
  then show ?thesis
  proof cases
    case 1
    from waits_jq [OF w m 1] obtain e where e: "j = React R (Rejected e)" by blast
    have "run_job j (w\<lparr>jobs := js\<rparr>) = settle q (Rejected e) (w\<lparr>jobs := js\<rparr>)"
      using d by (simp add: e run_unfulfilled_job)
    then show ?thesis
      using waits_run_q [OF w j [unfolded e]] by (simp add: awaits_def)
  next
    case 2
    from waits_ja [OF w m 2] consider "j = ResolveThenable a q"
      | e where "j = React (Follow a) (Rejected e)" by blast
    then show ?thesis
    proof cases
      case 1
      then show ?thesis
        using waits_subscribe [OF w j [unfolded 1]] by (simp add: awaits_def run_resolve_job)
    next
      case 2
      then show ?thesis
        using waits_run_a [OF w j [unfolded 2]] by (simp add: awaits_def run_follow_job)
    qed
  next
    case 3
    have "waits p a q R (w\<lparr>jobs := js\<rparr>)"
      using w j 3 by (rule waits_dequeue_other)
    then show ?thesis using 3 by (rule waits_run_other)
  qed
qed

lemma subscribed_awaits:
  assumes ok: "refs_ok w" and p: "p < length (promises w)"
    and R: "rtarget R = Suc (length (promises w))"
  shows "awaits p (length (promises w)) (Suc (length (promises w))) R (subscribed p R w)"
proof (cases "\<exists>v. pstate_of w p = Fulfilled v")
  case True
  then have "pstate_of w p \<noteq> Pending" by auto
  with later_subscribed [of w p R] have "pstate_of (subscribed p R w) p = pstate_of w p"
    by (simp add: later_def)
  with True show ?thesis by (simp add: awaits_def)
next
  case False
  define n where "n = length (promises w)"
  define w' where "w' = subscribed p R w"
  have lv: "live w p = (pstate_of w p = Pending)"
    using p by (simp add: live_def pstate_of_def)
  from ok have c0: "\<And>t. t \<in> snd ` set (calls w) \<Longrightarrow> t < n"
    and j0: "\<And>j. j \<in> set (jobs w) \<Longrightarrow> jtarget j < n"
    and r0: "\<And>x r. r \<in> set (reactions_of w x) \<Longrightarrow> rtarget r < n"
    by (auto simp add: refs_ok_def n_def)
  have o: "length (promises w') = Suc (Suc n)"
    "\<And>y. pstate_of w' y = (if y = n \<or> y = Suc n then Pending else pstate_of w y)"
    "\<And>y. reactions_of w' y = (if y = p \<and> live w p then reactions_of w p @ [R] else reactions_of w y)"
    "jobs w' = jobs w @ (if \<not> live w p then [React R (pstate_of w p)] else [])
        @ [ResolveThenable n (Suc n)]"
    "calls w' = calls w"
    using p
    by (auto simp add: w'_def n_def subscribed_def resolve_with_obs register_obs new_promise_obs)
  have out: "pstate_of w n = Pending" "pstate_of w (Suc n) = Pending"
    "reactions_of w n = []" "reactions_of w (Suc n) = []"
    by (simp_all add: pstate_of_def reactions_of_def n_def)
  have rej: "pstate_of w p = Pending \<or> (\<exists>e. pstate_of w p = Rejected e)"
    using False by (cases "pstate_of w p") simp_all
  have "waits p n (Suc n) R w'"
    unfolding waits_def
  proof (intro conjI)
    show "p \<noteq> Suc n" "p \<noteq> n" "n \<noteq> Suc n" "rtarget R = Suc n" using p R by (simp_all add: n_def)
    show "p < length (promises w')" "n < length (promises w')" "Suc n < length (promises w')"
      using p by (simp_all add: o n_def)
    show "\<forall>t\<in>snd ` set (calls w'). t \<noteq> n \<and> t \<noteq> Suc n"
    proof
      fix t assume "t \<in> snd ` set (calls w')"
      then have "t \<in> snd ` set (calls w)" by (simp only: o)
      then have "t < n" by (rule c0)
      then show "t \<noteq> n \<and> t \<noteq> Suc n" by simp
    qed
    show "\<forall>j\<in>set (jobs w'). jtarget j = Suc n \<longrightarrow>
       (\<exists>e. j = React R (Rejected e) \<and> pstate_of w' p = Rejected e)"
    proof (intro ballI impI)
      fix x assume x: "x \<in> set (jobs w')" "jtarget x = Suc n"
      have "x \<notin> set (jobs w)" using j0 [of x] x(2) by auto
      moreover have "x \<noteq> ResolveThenable n (Suc n)" using x(2) by auto
      ultimately have "x = React R (pstate_of w p)" "\<not> live w p"
        using x(1) by (auto simp add: o split: if_splits)
      then show "\<exists>e. x = React R (Rejected e) \<and> pstate_of w' p = Rejected e"
        using rej p by (auto simp add: o lv n_def)
    qed
    show "\<forall>x. \<forall>r\<in>set (reactions_of w' x). rtarget r = Suc n \<longrightarrow> x = p \<and> r = R"
      using r0 by (fastforce simp add: o split: if_splits)
    show "\<forall>j\<in>set (jobs w'). jtarget j = n \<longrightarrow>
       j = ResolveThenable n (Suc n)
       \<or> (\<exists>e. j = React (Follow n) (Rejected e) \<and> pstate_of w' (Suc n) = Rejected e)"
    proof (intro ballI impI)
      fix x assume x: "x \<in> set (jobs w')" "jtarget x = n"
      have "x \<notin> set (jobs w)" using j0 [of x] x(2) by auto
      moreover have "x \<noteq> React R (pstate_of w p)" using x(2) R by (auto simp add: n_def)
      ultimately have "x = ResolveThenable n (Suc n)"
        using x(1) by (auto simp add: o split: if_splits)
      then show "x = ResolveThenable n (Suc n)
       \<or> (\<exists>e. x = React (Follow n) (Rejected e) \<and> pstate_of w' (Suc n) = Rejected e)" ..
    qed
    show "\<forall>x. \<forall>r\<in>set (reactions_of w' x). rtarget r = n \<longrightarrow> x = Suc n \<and> r = Follow n"
      using r0 R by (fastforce simp add: o n_def split: if_splits)
    show "pstate_of w' (Suc n) = Pending
        \<or> (\<exists>e. pstate_of w' (Suc n) = Rejected e \<and> pstate_of w' p = Rejected e)"
      by (simp add: o)
    show "pstate_of w' n = Pending
        \<or> (\<exists>e. pstate_of w' n = Rejected e \<and> pstate_of w' (Suc n) = Rejected e)"
      by (simp add: o)
    show "pstate_of w' (Suc n) \<noteq> Pending \<longrightarrow> Follow n \<notin> set (reactions_of w' (Suc n))"
      by (simp add: o)
    show "pstate_of w' p = Pending \<longrightarrow> R \<in> set (reactions_of w' p)"
      using p by (simp add: o lv n_def)
    show "\<forall>e. pstate_of w' p = Rejected e \<longrightarrow>
         pstate_of w' (Suc n) = Rejected e \<or> React R (Rejected e) \<in> set (jobs w')"
      using p by (auto simp add: o lv n_def)
    show "pstate_of w' n \<noteq> Pending \<or> ResolveThenable n (Suc n) \<in> set (jobs w')
        \<or> Follow n \<in> set (reactions_of w' (Suc n))
        \<or> (\<exists>e. React (Follow n) (Rejected e) \<in> set (jobs w'))"
      by (simp add: o)
  qed
  then show ?thesis by (simp add: awaits_def w'_def n_def)
qed


section \<open>Histories\<close>

text \<open>
  What can happen to a world: the program calls the client or the registry, the network
  answers a request that was handed to the transport, or the next microtask runs. A
  method is called on a client that exists.
\<close>

datatype event =
    Construct ClientConfig
  | Configure ClientConfig
  | Reset
  | Init cid "bool option"
  | FetchToken cid
  | Get cid RequestConfig
  | Post cid RequestConfig
  | Network pid pstate
  | Microtask

definition apply_event :: "event \<Rightarrow> world \<Rightarrow> world" where
  "apply_event ev w =
     (case ev of
        Construct config \<Rightarrow> snd (new_SupersetClient config w)
      | Configure config \<Rightarrow> snd (configure config w)
      | Reset \<Rightarrow> reset w
      | Init c force \<Rightarrow> if c < length (clients w) then snd (init c force w) else w
      | FetchToken c \<Rightarrow> if c < length (clients w) then snd (getCSRFToken c w) else w
      | Get c request \<Rightarrow> if c < length (clients w) then snd (get c request w) else w
      | Post c request \<Rightarrow> if c < length (clients w) then snd (post c request w) else w
      | Network t st \<Rightarrow> if t \<in> snd ` set (calls w) then transport_settles t st w else w
      | Microtask \<Rightarrow> (case jobs w of [] \<Rightarrow> w | j # js \<Rightarrow> run_job j (w\<lparr>jobs := js\<rparr>)))"

fun run :: "event list \<Rightarrow> world \<Rightarrow> world" where
  "run [] w = w"
| "run (ev # es) w = run es (apply_event ev w)"

text \<open>The microtasks that a history runs, in order.\<close>

fun jobs_run :: "event list \<Rightarrow> world \<Rightarrow> job list" where
  "jobs_run [] w = []"
| "jobs_run (ev # es) w =
     (if ev = Microtask then take 1 (jobs w) else []) @ jobs_run es (apply_event ev w)"

definition world_ok :: "world \<Rightarrow> bool" where
  "world_ok w = (clients_ok w \<and> refs_ok w)"

lemma later_event: "later w (apply_event ev w)"
proof (cases ev)
  case (Construct config)
  then show ?thesis
    by (simp add: apply_event_def later_grows [OF later_refl grows_new_SupersetClient])
next
  case (Configure config)
  then show ?thesis by (simp add: apply_event_def later_grows [OF later_refl grows_configure])
next
  case Reset
  then show ?thesis by (simp add: apply_event_def later_grows [OF later_refl grows_reset])
next
  case (Init c force)
  then show ?thesis by (simp add: apply_event_def init_def later_getCSRFToken later_refl)
next
  case (FetchToken c)
  then show ?thesis by (simp add: apply_event_def later_getCSRFToken later_refl)
next
  case (Get c request)
  then show ?thesis by (simp add: apply_event_def get_subscribed later_subscribed later_refl)
next
  case (Post c request)
  then show ?thesis by (simp add: apply_event_def post_subscribed later_subscribed later_refl)
next
  case (Network t st)
  then show ?thesis
    by (simp add: apply_event_def transport_settles_def later_settle [OF later_refl] later_refl)
next
  case Microtask
  then show ?thesis
    by (cases "jobs w")
       (simp_all add: apply_event_def later_refl
          later_trans [OF later_jobs [OF later_refl] later_run_job])
qed

lemma later_run: "later w (run es w)"
proof (induction es arbitrary: w)
  case Nil
  show ?case by (simp add: later_refl)
next
  case (Cons ev es)
  show ?case using later_trans [OF later_event Cons.IH] by simp
qed

lemma later_drain: "later w (drain w)"
proof (induction w rule: drain.induct)
  case (1 w)
  show ?case
  proof (cases "jobs w")
    case Nil
    then show ?thesis by (simp add: drain_Nil later_refl)
  next
    case (Cons j js)
    have "later w (run_job j (w\<lparr>jobs := js\<rparr>))"
      by (rule later_trans [OF later_jobs [OF later_refl] later_run_job])
    then show ?thesis
      using "1.IH" [OF Cons] Cons by (simp add: drain_Cons later_trans)
  qed
qed

lemma jobs_drain: "jobs (drain w) = []"
proof (induction w rule: drain.induct)
  case (1 w)
  show ?case
  proof (cases "jobs w")
    case Nil
    then show ?thesis by (simp add: drain_Nil)
  next
    case (Cons j js)
    then show ?thesis using "1.IH" [OF Cons] by (simp add: drain_Cons)
  qed
qed

lemma laterD: "later w w' \<Longrightarrow> pstate_of w x \<noteq> Pending \<Longrightarrow> pstate_of w' x = pstate_of w x"
  by (simp add: later_def)

lemma world_ok_init: "world_ok init_world"
  by (simp add: world_ok_def clients_ok_def refs_ok_def init_world_def reactions_of_def)

lemma world_ok_event:
  assumes ok: "world_ok w"
  shows "world_ok (apply_event ev w)"
proof -
  from ok have c: "clients_ok w" and r: "refs_ok w" by (simp_all add: world_ok_def)
  show ?thesis
  proof (cases ev)
    case (Construct config)
    then show ?thesis
      using c r
      by (simp add: apply_event_def world_ok_def ok_new_SupersetClient
          refs_ok_grows [OF _ grows_new_SupersetClient])
  next
    case (Configure config)
    then show ?thesis
      using c r
      by (simp add: apply_event_def world_ok_def refs_ok_grows [OF _ grows_configure])
         (simp add: configure_def split_beta ok_new_SupersetClient)
  next
    case Reset
    then show ?thesis
      using c r
      by (simp add: apply_event_def world_ok_def refs_ok_grows [OF _ grows_reset])
         (simp add: reset_def)
  next
    case (Init c' force)
    then show ?thesis
      using c r ok
      by (simp add: apply_event_def world_ok_def ok_init) (simp add: init_def refs_ok_getCSRFToken)
  next
    case (FetchToken c')
    then show ?thesis
      using c r ok by (simp add: apply_event_def world_ok_def ok_getCSRFToken refs_ok_getCSRFToken)
  next
    case (Get c' request)
    then show ?thesis
      using c r ok
      by (simp add: apply_event_def world_ok_def ok_get) (simp add: get_subscribed refs_ok_subscribed)
  next
    case (Post c' request)
    then show ?thesis
      using c r ok
      by (simp add: apply_event_def world_ok_def ok_post)
         (simp add: post_subscribed refs_ok_subscribed)
  next
    case (Network t st)
    then show ?thesis
      using c r ok
      by (simp add: apply_event_def world_ok_def transport_settles_def ok_settle refs_ok_settle)
  next
    case Microtask
    show ?thesis
    proof (cases "jobs w")
      case Nil
      then show ?thesis using ok Microtask by (simp add: apply_event_def)
    next
      case (Cons j js)
      have "clients_ok (run_job j (w\<lparr>jobs := js\<rparr>))"
        using c by (simp add: ok_run_job)
      moreover have "refs_ok (run_job j (w\<lparr>jobs := js\<rparr>))"
        using refs_ok_dequeue [OF r Cons] by (simp add: refs_ok_run_job jobs_update_obs)
      ultimately show ?thesis
        using Microtask Cons by (simp add: apply_event_def world_ok_def)
    qed
  qed
qed

lemma world_ok_run: "world_ok w \<Longrightarrow> world_ok (run es w)"
  by (induction es arbitrary: w) (simp_all add: world_ok_event)

lemma awaits_event:
  assumes aw: "awaits p a q R w"
  shows "awaits p a q R (apply_event ev w)"
proof (cases "\<exists>v. pstate_of w p = Fulfilled v")
  case True
  then obtain v where v: "pstate_of w p = Fulfilled v" by blast
  then have "pstate_of (apply_event ev w) p = Fulfilled v"
    using laterD [OF later_event, of w p ev] by simp
  then show ?thesis by (simp add: awaits_def)
next
  case False
  with aw have w: "waits p a q R w" by (simp add: awaits_def)
  note b = waits_bounds [OF w]
  show ?thesis
  proof (cases ev)
    case (Construct config)
    then show ?thesis
      using waits_grows [OF w grows_new_SupersetClient] by (simp add: apply_event_def awaits_def)
  next
    case (Configure config)
    then show ?thesis
      using waits_grows [OF w grows_configure] by (simp add: apply_event_def awaits_def)
  next
    case Reset
    then show ?thesis
      using waits_grows [OF w grows_reset] by (simp add: apply_event_def awaits_def)
  next
    case (Init c force)
    then show ?thesis
      using w waits_getCSRFToken [OF w] by (simp add: apply_event_def awaits_def init_def)
  next
    case (FetchToken c)
    then show ?thesis
      using w waits_getCSRFToken [OF w] by (simp add: apply_event_def awaits_def)
  next
    case (Get c request)
    then show ?thesis
      using w waits_subscribed [OF w]
      by (simp add: apply_event_def awaits_def get_subscribed)
  next
    case (Post c request)
    then show ?thesis
      using w waits_subscribed [OF w]
      by (simp add: apply_event_def awaits_def post_subscribed)
  next
    case (Network t st)
    show ?thesis
    proof (cases "t \<in> snd ` set (calls w)")
      case True
      from waits_calls [OF w True] have "awaits p a q R (settle t st w)"
        using waits_settle [OF w] by simp
      then show ?thesis using Network True by (simp add: apply_event_def transport_settles_def)
    next
      case False
      then show ?thesis using Network aw by (simp add: apply_event_def)
    qed
  next
    case Microtask
    show ?thesis
    proof (cases "jobs w")
      case Nil
      then show ?thesis using Microtask aw by (simp add: apply_event_def)
    next
      case (Cons j js)
      then show ?thesis
        using Microtask waits_run_job [OF w Cons] by (simp add: apply_event_def)
    qed
  qed
qed

lemma awaits_run: "awaits p a q R w \<Longrightarrow> awaits p a q R (run es w)"
  by (induction es arbitrary: w) (simp_all add: awaits_event)

lemma awaits_drain: "awaits p a q R w \<Longrightarrow> awaits p a q R (drain w)"
proof (induction w rule: drain.induct)
  case (1 w)
  show ?case
  proof (cases "jobs w")
    case Nil
    then show ?thesis using "1.prems" by (simp add: drain_Nil)
  next
    case (Cons j js)
    have "awaits p a q R (apply_event Microtask w)"
      using "1.prems" by (rule awaits_event)
    then have "awaits p a q R (run_job j (w\<lparr>jobs := js\<rparr>))"
      using Cons by (simp add: apply_event_def)
    then show ?thesis
      using "1.IH" [OF Cons] Cons by (simp add: drain_Cons)
  qed
qed

lemma awaits_quiescent:
  assumes aw: "awaits p a q R w" and e: "pstate_of w p = Rejected e" and j: "jobs w = []"
  shows "pstate_of w a = Rejected e"
proof -
  from aw e have w: "waits p a q R w" by (simp add: awaits_def)
  from waits_lq [OF w e] j have q: "pstate_of w q = Rejected e" by simp
  from waits_eq [OF w] q have "Follow a \<notin> set (reactions_of w q)" by simp
  with waits_la [OF w] j have "pstate_of w a \<noteq> Pending" by simp
  with waits_sa [OF w] q show ?thesis by auto
qed

lemma awaits_not_fired:
  assumes aw: "awaits p a q R w" and nf: "\<forall>v. pstate_of (run es w) p \<noteq> Fulfilled v"
  shows "React R (Fulfilled v) \<notin> set (jobs_run es w)"
  using aw nf
proof (induction es arbitrary: w)
  case Nil
  show ?case by simp
next
  case (Cons ev es)
  have 1: "React R (Fulfilled v) \<notin> set (jobs_run es (apply_event ev w))"
    using Cons.IH [OF awaits_event [OF Cons.prems(1)]] Cons.prems(2) by simp
  have "\<forall>v. pstate_of w p \<noteq> Fulfilled v"
  proof (intro allI notI)
    fix u assume "pstate_of w p = Fulfilled u"
    then have "pstate_of (run (ev # es) w) p = Fulfilled u"
      using laterD [OF later_run, of w p "ev # es"] by simp
    with Cons.prems(2) show False by blast
  qed
  with Cons.prems(1) have w: "waits p a q R w" by (simp add: awaits_def)
  have 2: "React R (Fulfilled v) \<notin> set (take 1 (jobs w))"
  proof
    assume m: "React R (Fulfilled v) \<in> set (take 1 (jobs w))"
    then have "React R (Fulfilled v) \<in> set (jobs w)" by (rule in_set_takeD)
    from waits_jq [OF w this] waits_distinct [OF w] show False by simp
  qed
  show ?case using 1 2 by simp
qed
























lemma run_job_calls:
  assumes "\<forall>c r q v. j \<noteq> React (GetThen c r q) (Fulfilled v)
      \<and> j \<noteq> React (PostThen c r q) (Fulfilled v)"
  shows "calls (run_job j w) = calls w"
proof (cases j)
  case (ResolveThenable a p)
  then show ?thesis by (simp add: run_resolve_job register_obs)
next
  case (React r st)
  show ?thesis
  proof (cases "\<exists>v. st = Fulfilled v")
    case False
    then show ?thesis using React by (simp add: run_unfulfilled_job settle_obs)
  next
    case True
    then obtain v where v: "st = Fulfilled v" by blast
    show ?thesis
    proof (cases r)
      case (Follow a')
      then show ?thesis using React by (simp add: run_follow_job settle_obs)
    next
      case (TokenThen c' q')
      then show ?thesis
        using React v grows_obs(5) [OF grows_token_callback [of w c' v]]
        by (simp add: run_token_job settle_obs resolve_with_obs split: sum.splits)
    next
      case (GetThen c' request q')
      then show ?thesis using React v assms by simp
    next
      case (PostThen c' request q')
      then show ?thesis using React v assms by simp
    qed
  qed
qed

lemma calls_subscribed: "calls (subscribed p R w) = calls w"
  by (simp add: subscribed_def resolve_with_obs register_obs new_promise_obs)

lemma ensureAuth_valid:
  "world_ok w \<Longrightarrow> c < length (clients w) \<Longrightarrow> ensureAuth c w < length (promises w)"
  by (simp add: world_ok_def clients_ok_def client_ok_def ensureAuth_def client_def)

lemma get_awaits:
  assumes ok: "world_ok w" and c: "c < length (clients w)"
  shows "awaits (ensureAuth c w) (length (promises w)) (Suc (length (promises w)))
           (GetThen c request (Suc (length (promises w)))) (snd (get c request w))"
  using subscribed_awaits [OF _ ensureAuth_valid [OF ok c]] ok
  by (simp add: get_subscribed world_ok_def)

lemma post_awaits:
  assumes ok: "world_ok w" and c: "c < length (clients w)"
  shows "awaits (ensureAuth c w) (length (promises w)) (Suc (length (promises w)))
           (PostThen c request (Suc (length (promises w)))) (snd (post c request w))"
  using subscribed_awaits [OF _ ensureAuth_valid [OF ok c]] ok
  by (simp add: post_subscribed world_ok_def)

lemma awaits_rejected:
  assumes aw: "awaits p a q R w" and e: "pstate_of (run es w) p = Rejected e"
  shows "pstate_of (drain (run es w)) a = Rejected e"
proof -
  have 1: "awaits p a q R (drain (run es w))"
    by (intro awaits_drain awaits_run aw)
  have 2: "pstate_of (drain (run es w)) p = Rejected e"
    using laterD [OF later_drain, of "run es w" p] e by simp
  show ?thesis using 1 2 jobs_drain by (rule awaits_quiescent)
qed


lemma pstate_of_subscribed: "pstate_of (subscribed p R w) x = pstate_of w x"
  by (simp add: subscribed_def resolve_with_obs register_obs new_promise_obs)
     (simp add: pstate_of_def)

lemma rejected_stays: "pstate_of w x = Rejected e \<Longrightarrow> pstate_of (run es w) x = Rejected e"
  using laterD [OF later_run, of w x es] by simp

lemma get_request_waits:
  assumes ok: "world_ok w" and c: "c < length (clients w)"
  shows "pstate_of (run es (snd (get c request w))) (ensureAuth c w) = Rejected e \<longrightarrow>
      pstate_of (drain (run es (snd (get c request w)))) (fst (get c request w)) = Rejected e"
    and "(\<forall>u. pstate_of (run es (snd (get c request w))) (ensureAuth c w) \<noteq> Fulfilled u) \<longrightarrow>
      React (GetThen c request (Suc (length (promises w)))) (Fulfilled v)
        \<notin> set (jobs_run es (snd (get c request w)))"
  using awaits_rejected [OF get_awaits [OF ok c]] awaits_not_fired [OF get_awaits [OF ok c]]
  by (simp_all add: get_subscribed)

lemma post_request_waits:
  assumes ok: "world_ok w" and c: "c < length (clients w)"
  shows "pstate_of (run es (snd (post c request w))) (ensureAuth c w) = Rejected e \<longrightarrow>
      pstate_of (drain (run es (snd (post c request w)))) (fst (post c request w)) = Rejected e"
    and "(\<forall>u. pstate_of (run es (snd (post c request w))) (ensureAuth c w) \<noteq> Fulfilled u) \<longrightarrow>
      React (PostThen c request (Suc (length (promises w)))) (Fulfilled v)
        \<notin> set (jobs_run es (snd (post c request w)))"
  using awaits_rejected [OF post_awaits [OF ok c]] awaits_not_fired [OF post_awaits [OF ok c]]
  by (simp_all add: post_subscribed)

lemma fresh_world_ok: "world_ok fresh_world"
  using world_ok_event [OF world_ok_init, of "Configure empty_config"]
  by (simp add: apply_event_def fresh_world_def)



text \<open>An example history: microtasks run and another request is made.\<close>

definition later_events :: "event list" where
  "later_events = [Microtask, Get 0 plain_request, Microtask, Microtask, Post 0 plain_request]"


section \<open>Requests reject with the rejection of the authentication promise\<close>

text \<open>
  Claim C1. Let the queue be empty when \<open>get\<close> or \<open>post\<close> is called. If the promise that
  \<open>ensureAuth\<close> returns is rejected with \<open>e\<close>, the promise returned by the call is rejected
  with \<open>e\<close> once the queue has drained, and the transport has been handed nothing. In
  particular, for a client that was constructed without a token and has not fetched one,
  the payload is the message about the missing CSRF token. The same holds when the promise
  is still pending at the call and is rejected later: after \<open>getCSRFToken\<close> has started a
  fetch, the promise of a \<open>get\<close> or \<open>post\<close> stays pending, and when the transport rejects
  the fetch with \<open>e\<close> it is rejected with \<open>e\<close>, the token request being the only request
  made.

  In general, let the call be made on a client of a well-formed world, with whatever is
  in the queue, and let any history \<open>es\<close> of calls, answers of the network and microtasks
  follow. If at its end the promise that \<open>ensureAuth\<close> returned at the call is rejected
  with \<open>e\<close>, then draining the queue rejects the promise returned by the call with \<open>e\<close>,
  and the history has not run the callback of the request with a fulfilled value. That
  callback is the only step of the request that hands anything to the transport: the calls
  \<open>get\<close> and \<open>post\<close> themselves leave the log of the transport as it is, and so does
  every microtask other than a callback of \<open>get\<close> or \<open>post\<close> run with a fulfilled value.
  Every world that a history reaches from the initial world is well formed.
\<close>

theorem requests_reject_with_auth_rejection:
  "(jobs w = [] \<and> pstate_of w (ensureAuth c w) = Rejected e \<longrightarrow>
      outcome (get c request w) = Rejected e
      \<and> calls_after (get c request w) = calls w
      \<and> outcome (post c request w) = Rejected e
      \<and> calls_after (post c request w) = calls w)
   \<and> (jobs w = [] \<and> cfg_csrfToken config = None \<longrightarrow>
      outcome (get (fst (new_SupersetClient config w)) request (snd (new_SupersetClient config w)))
        = Rejected (no_token_payload (client (snd (new_SupersetClient config w))
                                        (fst (new_SupersetClient config w))))
      \<and> calls_after (get (fst (new_SupersetClient config w)) request
            (snd (new_SupersetClient config w))) = calls w
      \<and> outcome (post (fst (new_SupersetClient config w)) request (snd (new_SupersetClient config w)))
        = Rejected (no_token_payload (client (snd (new_SupersetClient config w))
                                        (fst (new_SupersetClient config w))))
      \<and> calls_after (post (fst (new_SupersetClient config w)) request
            (snd (new_SupersetClient config w))) = calls w)
   \<and> (jobs w = [] \<and> c < length (clients w) \<longrightarrow>
      outcome (get c request (snd (getCSRFToken c w))) = Pending
      \<and> outcome (and_then_settles (Suc (length (promises w))) (Rejected e)
           (get c request (snd (getCSRFToken c w)))) = Rejected e
      \<and> calls_after (and_then_settles (Suc (length (promises w))) (Rejected e)
           (get c request (snd (getCSRFToken c w)))) = calls (snd (getCSRFToken c w))
      \<and> outcome (post c request (snd (getCSRFToken c w))) = Pending
      \<and> outcome (and_then_settles (Suc (length (promises w))) (Rejected e)
           (post c request (snd (getCSRFToken c w)))) = Rejected e
      \<and> calls_after (and_then_settles (Suc (length (promises w))) (Rejected e)
           (post c request (snd (getCSRFToken c w)))) = calls (snd (getCSRFToken c w)))
   \<and> (world_ok w \<and> c < length (clients w)
        \<and> pstate_of (run es (snd (get c request w))) (ensureAuth c w) = Rejected e \<longrightarrow>
      pstate_of (drain (run es (snd (get c request w)))) (fst (get c request w)) = Rejected e
      \<and> React (GetThen c request (Suc (length (promises w)))) (Fulfilled v)
           \<notin> set (jobs_run es (snd (get c request w))))
   \<and> (world_ok w \<and> c < length (clients w)
        \<and> pstate_of (run es (snd (post c request w))) (ensureAuth c w) = Rejected e \<longrightarrow>
      pstate_of (drain (run es (snd (post c request w)))) (fst (post c request w)) = Rejected e
      \<and> React (PostThen c request (Suc (length (promises w)))) (Fulfilled v)
           \<notin> set (jobs_run es (snd (post c request w))))
   \<and> ((\<forall>c' r q u. j \<noteq> React (GetThen c' r q) (Fulfilled u)
          \<and> j \<noteq> React (PostThen c' r q) (Fulfilled u)) \<longrightarrow>
      calls (run_job j w) = calls w)
   \<and> calls (snd (get c request w)) = calls w
   \<and> calls (snd (post c request w)) = calls w
   \<and> world_ok (run es init_world)"
proof -
  have 1: "jobs w = [] \<and> pstate_of w (ensureAuth c w) = Rejected e \<longrightarrow>
      outcome (get c request w) = Rejected e
      \<and> calls_after (get c request w) = calls w
      \<and> outcome (post c request w) = Rejected e
      \<and> calls_after (post c request w) = calls w"
    using get_rejected [of w c e request] post_rejected [of w c e request] by simp
  have 2: "jobs w = [] \<and> cfg_csrfToken config = None \<longrightarrow>
      outcome (get (fst (new_SupersetClient config w)) request (snd (new_SupersetClient config w)))
        = Rejected (no_token_payload (client (snd (new_SupersetClient config w))
                                        (fst (new_SupersetClient config w))))
      \<and> calls_after (get (fst (new_SupersetClient config w)) request
            (snd (new_SupersetClient config w))) = calls w
      \<and> outcome (post (fst (new_SupersetClient config w)) request (snd (new_SupersetClient config w)))
        = Rejected (no_token_payload (client (snd (new_SupersetClient config w))
                                        (fst (new_SupersetClient config w))))
      \<and> calls_after (post (fst (new_SupersetClient config w)) request
            (snd (new_SupersetClient config w))) = calls w"
  proof (intro impI)
    let ?c = "fst (new_SupersetClient config w)" and ?w = "snd (new_SupersetClient config w)"
    assume h: "jobs w = [] \<and> cfg_csrfToken config = None"
    then have q: "jobs ?w = []" and r: "pstate_of ?w (ensureAuth ?c ?w)
        = Rejected (no_token_payload (client ?w ?c))" and k: "calls ?w = calls w"
      using new_client_no_token [of config w] by simp_all
    show "outcome (get ?c request ?w) = Rejected (no_token_payload (client ?w ?c))
      \<and> calls_after (get ?c request ?w) = calls w
      \<and> outcome (post ?c request ?w) = Rejected (no_token_payload (client ?w ?c))
      \<and> calls_after (post ?c request ?w) = calls w"
      using get_rejected [OF q r] post_rejected [OF q r] k by simp
  qed
  have 3: "jobs w = [] \<and> c < length (clients w) \<longrightarrow>
      outcome (get c request (snd (getCSRFToken c w))) = Pending
      \<and> outcome (and_then_settles (Suc (length (promises w))) (Rejected e)
           (get c request (snd (getCSRFToken c w)))) = Rejected e
      \<and> calls_after (and_then_settles (Suc (length (promises w))) (Rejected e)
           (get c request (snd (getCSRFToken c w)))) = calls (snd (getCSRFToken c w))
      \<and> outcome (post c request (snd (getCSRFToken c w))) = Pending
      \<and> outcome (and_then_settles (Suc (length (promises w))) (Rejected e)
           (post c request (snd (getCSRFToken c w)))) = Rejected e
      \<and> calls_after (and_then_settles (Suc (length (promises w))) (Rejected e)
           (post c request (snd (getCSRFToken c w)))) = calls (snd (getCSRFToken c w))"
  proof (intro impI)
    assume h: "jobs w = [] \<and> c < length (clients w)"
    then have q: "jobs w = []" and v: "c < length (clients w)" by simp_all
    show "outcome (get c request (snd (getCSRFToken c w))) = Pending
      \<and> outcome (and_then_settles (Suc (length (promises w))) (Rejected e)
           (get c request (snd (getCSRFToken c w)))) = Rejected e
      \<and> calls_after (and_then_settles (Suc (length (promises w))) (Rejected e)
           (get c request (snd (getCSRFToken c w)))) = calls (snd (getCSRFToken c w))
      \<and> outcome (post c request (snd (getCSRFToken c w))) = Pending
      \<and> outcome (and_then_settles (Suc (length (promises w))) (Rejected e)
           (post c request (snd (getCSRFToken c w)))) = Rejected e
      \<and> calls_after (and_then_settles (Suc (length (promises w))) (Rejected e)
           (post c request (snd (getCSRFToken c w)))) = calls (snd (getCSRFToken c w))"
      using get_after_fetch [OF q v] post_after_fetch [OF q v] by simp
  qed
  have 4: "world_ok w \<and> c < length (clients w)
        \<and> pstate_of (run es (snd (get c request w))) (ensureAuth c w) = Rejected e \<longrightarrow>
      pstate_of (drain (run es (snd (get c request w)))) (fst (get c request w)) = Rejected e
      \<and> React (GetThen c request (Suc (length (promises w)))) (Fulfilled v)
           \<notin> set (jobs_run es (snd (get c request w)))"
  proof (intro impI)
    assume h: "world_ok w \<and> c < length (clients w)
        \<and> pstate_of (run es (snd (get c request w))) (ensureAuth c w) = Rejected e"
    then have ok: "world_ok w" and v: "c < length (clients w)" by simp_all
    from h get_request_waits(1) [OF ok v, of es request e]
      get_request_waits(2) [OF ok v, of es request v]
    show "pstate_of (drain (run es (snd (get c request w)))) (fst (get c request w)) = Rejected e
      \<and> React (GetThen c request (Suc (length (promises w)))) (Fulfilled v)
           \<notin> set (jobs_run es (snd (get c request w)))"
      by simp
  qed
  have 5: "world_ok w \<and> c < length (clients w)
        \<and> pstate_of (run es (snd (post c request w))) (ensureAuth c w) = Rejected e \<longrightarrow>
      pstate_of (drain (run es (snd (post c request w)))) (fst (post c request w)) = Rejected e
      \<and> React (PostThen c request (Suc (length (promises w)))) (Fulfilled v)
           \<notin> set (jobs_run es (snd (post c request w)))"
  proof (intro impI)
    assume h: "world_ok w \<and> c < length (clients w)
        \<and> pstate_of (run es (snd (post c request w))) (ensureAuth c w) = Rejected e"
    then have ok: "world_ok w" and v: "c < length (clients w)" by simp_all
    from h post_request_waits(1) [OF ok v, of es request e]
      post_request_waits(2) [OF ok v, of es request v]
    show "pstate_of (drain (run es (snd (post c request w)))) (fst (post c request w)) = Rejected e
      \<and> React (PostThen c request (Suc (length (promises w)))) (Fulfilled v)
           \<notin> set (jobs_run es (snd (post c request w)))"
      by simp
  qed
  have 6: "(\<forall>c' r q u. j \<noteq> React (GetThen c' r q) (Fulfilled u)
          \<and> j \<noteq> React (PostThen c' r q) (Fulfilled u)) \<longrightarrow>
      calls (run_job j w) = calls w"
    using run_job_calls [of j w] by blast
  have 7: "calls (snd (get c request w)) = calls w"
    by (simp add: get_subscribed calls_subscribed)
  have 8: "calls (snd (post c request w)) = calls w"
    by (simp add: post_subscribed calls_subscribed)
  have 9: "world_ok (run es init_world)"
    using world_ok_init by (rule world_ok_run)
  show ?thesis
    by (intro conjI 1 2 3 4 5 6 7 8 9)
qed

theorem requests_reject_with_auth_rejection_witness:
  "jobs fresh_world = []
   \<and> pstate_of fresh_world (ensureAuth 0 fresh_world)
       = Rejected (JObj [(''error'', JStr (no_token_message ''http://localhost/login''))])
   \<and> outcome (get 0 plain_request fresh_world)
       = Rejected (JObj [(''error'', JStr (no_token_message ''http://localhost/login''))])
   \<and> calls_after (get 0 plain_request fresh_world) = []
   \<and> outcome (post 0 plain_request fresh_world)
       = Rejected (JObj [(''error'', JStr (no_token_message ''http://localhost/login''))])
   \<and> calls_after (post 0 plain_request fresh_world) = []
   \<and> outcome (and_then_settles (Suc (length (promises fresh_world))) (Rejected (JStr ''offline''))
         (get 0 plain_request (snd (getCSRFToken 0 fresh_world)))) = Rejected (JStr ''offline'')
   \<and> length (calls_after (and_then_settles (Suc (length (promises fresh_world)))
         (Rejected (JStr ''offline'')) (get 0 plain_request (snd (getCSRFToken 0 fresh_world))))) = 1
   \<and> world_ok fresh_world \<and> 0 < length (clients fresh_world)
   \<and> pstate_of (run later_events (snd (get 0 plain_request fresh_world))) (ensureAuth 0 fresh_world)
       = Rejected (JObj [(''error'', JStr (no_token_message ''http://localhost/login''))])
   \<and> pstate_of (drain (run later_events (snd (get 0 plain_request fresh_world))))
         (fst (get 0 plain_request fresh_world))
       = Rejected (JObj [(''error'', JStr (no_token_message ''http://localhost/login''))])
   \<and> React (GetThen 0 plain_request (Suc (length (promises fresh_world)))) (Fulfilled JNull)
         \<notin> set (jobs_run later_events (snd (get 0 plain_request fresh_world)))"
proof -
  have s: "pstate_of (run later_events (snd (get 0 plain_request fresh_world)))
             (ensureAuth 0 fresh_world)
       = Rejected (JObj [(''error'', JStr (no_token_message ''http://localhost/login''))])"
    by (rule rejected_stays)
       (simp add: get_subscribed pstate_of_subscribed fresh_world_facts ensureAuth_def)
  have g: "pstate_of (drain (run later_events (snd (get 0 plain_request fresh_world))))
         (fst (get 0 plain_request fresh_world))
       = Rejected (JObj [(''error'', JStr (no_token_message ''http://localhost/login''))])
     \<and> React (GetThen 0 plain_request (Suc (length (promises fresh_world)))) (Fulfilled JNull)
         \<notin> set (jobs_run later_events (snd (get 0 plain_request fresh_world)))"
    using requests_reject_with_auth_rejection [of fresh_world 0
      "JObj [(''error'', JStr (no_token_message ''http://localhost/login''))]" plain_request
      empty_config later_events JNull] s fresh_world_ok
    by (simp add: fresh_world_facts)
  show ?thesis
    using requests_reject_with_auth_rejection [of fresh_world 0
        "JObj [(''error'', JStr (no_token_message ''http://localhost/login''))]" plain_request
        empty_config]
      requests_reject_with_auth_rejection [of fresh_world 0 "JStr ''offline''" plain_request
        empty_config]
      getCSRFToken_calls [of 0 fresh_world] s g fresh_world_ok
    by (simp add: fresh_world_facts ensureAuth_def)
qed

section \<open>The fetch is the synchronisation point\<close>



section \<open>The callback of the fetch\<close>






section \<open>A promise resolved with another promise\<close>



































section \<open>The promise of a callback that has not run\<close>





















section \<open>How a fetch settles\<close>











































section \<open>The outcomes of a fetch\<close>






end
